theory Spec2Isabelle
  imports Main
begin

section \<open>Values handled by the tenant manager\<close>

text \<open>
  The module \<^verbatim>\<open>Backend/utils/tenantManager.js\<close> exports one function,
  \<^verbatim>\<open>getTenantConnection(userId)\<close>, and keeps one module-level object,
  \<^verbatim>\<open>connections\<close>. Everything the function awaits (the profile lookup, the
  connection handshake, the creation of a collection) is outside the module: the model gives
  each such completion as an event, so that every interleaving the event loop can produce
  is a list of events.
\<close>

datatype jsError = TypeError | NamespaceExists | DriverError string

text \<open>
  The argument \<^verbatim>\<open>userId\<close>: a string, an ObjectId (whose \<^verbatim>\<open>toString()\<close> is
  its hexadecimal text) or null/undefined, on which \<^verbatim>\<open>userId.toString()\<close> throws.
\<close>

datatype idValue = IdString string | ObjectId string | Nullish

fun toString :: "idValue \<Rightarrow> jsError + string" where
  "toString (IdString s) = Inr s"
| "toString (ObjectId hex) = Inr hex"
| "toString Nullish = Inl TypeError"

text \<open>
  What a read of \<^verbatim>\<open>connections[idStr]\<close> can yield: the promise of an attempt (named
  by the number of the attempt), a connection (named by the number of the
  \<^verbatim>\<open>createConnection\<close> call that made it), or a member inherited from
  \<^verbatim>\<open>Object.prototype\<close>, since \<^verbatim>\<open>connections\<close> is a plain object literal.
\<close>

datatype jsval = VPromise nat | VConn nat | VProto string

record user =
  tenantDbName :: "string option"

section \<open>Resolution of the database name (lines 28 and 29)\<close>

definition dbPrefix :: string where
  "dbPrefix = ''AI_FARM_user_''"

definition startsWith :: "string \<Rightarrow> string \<Rightarrow> bool" where
  "startsWith s p = (take (length p) s = p)"

text \<open>
  \<^verbatim>\<open>(user && user.tenantDbName) ? user.tenantDbName : `AI_FARM_user_${idStr}`\<close>:
  a null profile, a missing field and the empty string are all falsy.
\<close>

definition dbIdentifier :: "user option \<Rightarrow> string \<Rightarrow> string" where
  "dbIdentifier usr idStr =
     (case usr of
        None \<Rightarrow> dbPrefix @ idStr
      | Some u \<Rightarrow>
          (case tenantDbName u of
             None \<Rightarrow> dbPrefix @ idStr
           | Some n \<Rightarrow> if n = [] then dbPrefix @ idStr else n))"

definition normalizeName :: "string \<Rightarrow> string" where
  "normalizeName ident = (if startsWith ident dbPrefix then ident else dbPrefix @ ident)"

definition resolveDbName :: "user option \<Rightarrow> string \<Rightarrow> string" where
  "resolveDbName usr idStr = normalizeName (dbIdentifier usr idStr)"

section \<open>The registry, the attempts and the connections\<close>

text \<open>
  The parts of the surroundings that are fixed while the process runs:
  \<^verbatim>\<open>Object.keys(schemas)\<close>, the result of \<^verbatim>\<open>mongoose.pluralize()\<close>, whether
  \<^verbatim>\<open>conn.model(name, schema)\<close> throws for a name, and \<^verbatim>\<open>process.env.MONGO_URI\<close>
  as \<^verbatim>\<open>new URL\<close> reads it (\<open>None\<close> when the constructor throws).
\<close>

record env =
  schemaNames :: "string list"
  pluralize :: "(string \<Rightarrow> string) option"
  modelThrows :: "string \<Rightarrow> jsError option"
  mongoUri :: "string option"

definition lowerChar :: "char \<Rightarrow> char" where
  "lowerChar c =
     (let n = (of_char c :: nat) in if 65 \<le> n \<and> n \<le> 90 then char_of (n + 32) else c)"

definition toLowerCase :: "string \<Rightarrow> string" where
  "toLowerCase s = map lowerChar s"

definition collectionName :: "env \<Rightarrow> string \<Rightarrow> string" where
  "collectionName e modelName =
     (case pluralize e of
        Some f \<Rightarrow> f modelName
      | None \<Rightarrow> toLowerCase modelName @ ''s'')"

text \<open>
  A connection object. \<open>conn_key\<close> is bookkeeping: the id string of the attempt that
  called \<^verbatim>\<open>createConnection\<close>, which is how calls of the connector are counted per
  tenant key.
\<close>

record connection =
  conn_key :: string
  conn_base :: string
  conn_db :: string
  conn_models :: "string list"
  conn_collections :: "string list"

text \<open>
  The await at which the asynchronous unit of work of lines 21 to 57 is suspended, or
  its outcome once it has settled.
\<close>

datatype stage =
    AwaitLookup
  | AwaitConnect nat
  | AwaitCollection nat "string list"
  | Settled "jsError + nat"

record task =
  t_key :: string
  t_stage :: stage

text \<open>
  One call of \<^verbatim>\<open>getTenantConnection\<close>: the key it computed and what its promise was
  resolved with (a promise that follows another one is resolved with that one).
\<close>

record call =
  call_key :: "jsError + string"
  call_ret :: "jsError + jsval"

record state =
  connections :: "string \<rightharpoonup> jsval"
  tasks :: "task list"
  conns :: "connection list"
  calls :: "call list"

definition init :: state where
  "init = \<lparr>connections = Map.empty, tasks = [], conns = [], calls = []\<rparr>"

definition objectPrototypeKeys :: "string list" where
  "objectPrototypeKeys =
     [''constructor'', ''__defineGetter__'', ''__defineSetter__'', ''hasOwnProperty'',
      ''__lookupGetter__'', ''__lookupSetter__'', ''isPrototypeOf'',
      ''propertyIsEnumerable'', ''toString'', ''valueOf'', ''__proto__'',
      ''toLocaleString'']"

text \<open>
  \<^verbatim>\<open>connections[idStr]\<close>: the own property, else the inherited one, else undefined
  (\<open>None\<close>).
\<close>

definition lookupEntry :: "(string \<rightharpoonup> jsval) \<Rightarrow> string \<Rightarrow> jsval option" where
  "lookupEntry m k =
     (case m k of
        Some v \<Rightarrow> Some v
      | None \<Rightarrow> if k \<in> set objectPrototypeKeys then Some (VProto k) else None)"

definition stageOf :: "state \<Rightarrow> nat \<Rightarrow> stage option" where
  "stageOf s t = (if t < length (tasks s) then Some (t_stage (tasks s ! t)) else None)"

definition keyOf :: "state \<Rightarrow> nat \<Rightarrow> string" where
  "keyOf s t = t_key (tasks s ! t)"

definition setStage :: "state \<Rightarrow> nat \<Rightarrow> stage \<Rightarrow> state" where
  "setStage s t st = s\<lparr>tasks := (tasks s)[t := (tasks s ! t)\<lparr>t_stage := st\<rparr>]\<rparr>"

text \<open>Lines 52 to 56: \<^verbatim>\<open>delete connections[idStr]; throw err\<close>.\<close>

definition failTask :: "state \<Rightarrow> nat \<Rightarrow> jsError \<Rightarrow> state" where
  "failTask s t err =
     setStage (s\<lparr>connections := (connections s)(keyOf s t := None)\<rparr>) t (Settled (Inl err))"

text \<open>Lines 50 and 51: \<^verbatim>\<open>connections[idStr] = conn; return conn\<close>.\<close>

definition succeedTask :: "state \<Rightarrow> nat \<Rightarrow> nat \<Rightarrow> state" where
  "succeedTask s t h =
     setStage (s\<lparr>connections := (connections s)(keyOf s t \<mapsto> VConn h)\<rparr>) t (Settled (Inr h))"

text \<open>
  Lines 28 to 38, run when the profile lookup has resolved with \<open>usr\<close>: the name is
  resolved, the URL is built and \<^verbatim>\<open>mongoose.createConnection(uri)\<close> is called; the unit of
  work then waits for \<^verbatim>\<open>asPromise()\<close>.
\<close>

definition newConnection :: "string \<Rightarrow> string \<Rightarrow> string \<Rightarrow> connection" where
  "newConnection idStr base dbName =
     \<lparr>conn_key = idStr, conn_base = base, conn_db = dbName,
      conn_models = [], conn_collections = []\<rparr>"

definition openConnection :: "env \<Rightarrow> state \<Rightarrow> nat \<Rightarrow> user option \<Rightarrow> state" where
  "openConnection e s t usr =
     (let idStr = keyOf s t; dbName = resolveDbName usr idStr in
      case mongoUri e of
        None \<Rightarrow> failTask s t TypeError
      | Some base \<Rightarrow>
          setStage (s\<lparr>conns := conns s @ [newConnection idStr base dbName]\<rparr>)
            t (AwaitConnect (length (conns s))))"

text \<open>
  Lines 42 to 51, from the head of the loop to its next await: with no name left the
  connection replaces the promise in the registry; otherwise the model is registered
  (a throw goes to the catch block) and \<^verbatim>\<open>createCollection\<close> is called and awaited.
\<close>

definition registerModel :: "env \<Rightarrow> string \<Rightarrow> connection \<Rightarrow> connection" where
  "registerModel e m c =
     c\<lparr>conn_models := conn_models c @ [m],
       conn_collections := conn_collections c @ [collectionName e m]\<rparr>"

fun schemaLoop :: "env \<Rightarrow> state \<Rightarrow> nat \<Rightarrow> nat \<Rightarrow> string list \<Rightarrow> state" where
  "schemaLoop e s t h [] = succeedTask s t h"
| "schemaLoop e s t h (m # ms) =
     (case modelThrows e m of
        Some err \<Rightarrow> failTask s t err
      | None \<Rightarrow>
          setStage (s\<lparr>conns := (conns s)[h := registerModel e m (conns s ! h)]\<rparr>)
            t (AwaitCollection h ms))"

text \<open>
  Line 21: the asynchronous unit of work is started (it runs up to its first await, the
  profile lookup) and its promise is stored under \<open>idStr\<close>, all within the call.
  The two statements it runs before that await, the \<^verbatim>\<open>require\<close> of the User model
  and the call of \<^verbatim>\<open>User.findById\<close>, which builds a query object, are taken not
  to throw: every failure of the unit of work comes after the promise has been stored.
\<close>

definition startAttempt :: "state \<Rightarrow> string \<Rightarrow> state" where
  "startAttempt s idStr =
     s\<lparr>connections := (connections s)(idStr \<mapsto> VPromise (length (tasks s))),
       tasks := tasks s @ [\<lparr>t_key = idStr, t_stage = AwaitLookup\<rparr>]\<rparr>"

definition recordCall :: "state \<Rightarrow> jsError + string \<Rightarrow> jsError + jsval \<Rightarrow> state" where
  "recordCall s k r = s\<lparr>calls := calls s @ [\<lparr>call_key = k, call_ret = r\<rparr>]\<rparr>"

text \<open>
  Lines 10 to 21 and 59, the part of a call that runs before it first yields. Every
  value a read of the registry can yield is an object, hence truthy, so the test of
  line 12 succeeds exactly when the read is not undefined; undefined is not an instance
  of Promise, so the test of line 17 never succeeds after line 12 has failed. Line 59
  reads back the promise that line 21 has just stored.
\<close>

definition getTenantConnection :: "state \<Rightarrow> idValue \<Rightarrow> state" where
  "getTenantConnection s userId =
     (case toString userId of
        Inl err \<Rightarrow> recordCall s (Inl err) (Inl err)
      | Inr idStr \<Rightarrow>
          (case lookupEntry (connections s) idStr of
             Some v \<Rightarrow> recordCall s (Inr idStr) (Inr v)
           | None \<Rightarrow>
               recordCall (startAttempt s idStr) (Inr idStr)
                 (Inr (VPromise (length (tasks s))))))"

section \<open>The event loop\<close>

datatype event =
    Call idValue
  | LookupResolved nat "user option"
  | LookupRejected nat jsError
  | ConnectResolved nat
  | ConnectRejected nat jsError
  | CollectionResolved nat
  | CollectionRejected nat jsError

text \<open>
  One turn of the event loop. A completion that no attempt is waiting for changes
  nothing. The rejection of \<^verbatim>\<open>createCollection\<close> is caught by
  \<^verbatim>\<open>.catch(() => { })\<close> of line 47 whatever the error is, so the loop goes on as
  after a resolution.
\<close>

fun step :: "env \<Rightarrow> state \<Rightarrow> event \<Rightarrow> state" where
  "step e s (Call userId) = getTenantConnection s userId"
| "step e s (LookupResolved t usr) =
     (case stageOf s t of Some AwaitLookup \<Rightarrow> openConnection e s t usr | _ \<Rightarrow> s)"
| "step e s (LookupRejected t err) =
     (case stageOf s t of Some AwaitLookup \<Rightarrow> failTask s t err | _ \<Rightarrow> s)"
| "step e s (ConnectResolved t) =
     (case stageOf s t of Some (AwaitConnect h) \<Rightarrow> schemaLoop e s t h (schemaNames e) | _ \<Rightarrow> s)"
| "step e s (ConnectRejected t err) =
     (case stageOf s t of Some (AwaitConnect h) \<Rightarrow> failTask s t err | _ \<Rightarrow> s)"
| "step e s (CollectionResolved t) =
     (case stageOf s t of Some (AwaitCollection h ms) \<Rightarrow> schemaLoop e s t h ms | _ \<Rightarrow> s)"
| "step e s (CollectionRejected t err) =
     (case stageOf s t of Some (AwaitCollection h ms) \<Rightarrow> schemaLoop e s t h ms | _ \<Rightarrow> s)"

definition run :: "env \<Rightarrow> state \<Rightarrow> event list \<Rightarrow> state" where
  "run e s evs = foldl (step e) s evs"

text \<open>
  What the promise returned by call number \<open>c\<close> has settled to, if it has: a promise
  that follows the promise of an attempt settles as that attempt does.
\<close>

definition callResult :: "state \<Rightarrow> nat \<Rightarrow> (jsError + jsval) option" where
  "callResult s c =
     (if c < length (calls s) then
        (case call_ret (calls s ! c) of
           Inl err \<Rightarrow> Some (Inl err)
         | Inr (VPromise t) \<Rightarrow>
             (case stageOf s t of
                Some (Settled (Inl err)) \<Rightarrow> Some (Inl err)
              | Some (Settled (Inr h)) \<Rightarrow> Some (Inr (VConn h))
              | _ \<Rightarrow> None)
         | Inr v \<Rightarrow> Some (Inr v))
      else None)"

text \<open>The number of \<^verbatim>\<open>createConnection\<close> calls made for a key.\<close>

definition attempts :: "state \<Rightarrow> string \<Rightarrow> nat" where
  "attempts s k = length (filter (\<lambda>c. conn_key c = k) (conns s))"

section \<open>Invariants of the event loop\<close>

definition inflight :: "stage \<Rightarrow> bool" where
  "inflight st = (case st of Settled r \<Rightarrow> False | _ \<Rightarrow> True)"

definition handleOf :: "stage \<Rightarrow> nat option" where
  "handleOf st =
     (case st of
        AwaitLookup \<Rightarrow> None
      | AwaitConnect h \<Rightarrow> Some h
      | AwaitCollection h ms \<Rightarrow> Some h
      | Settled r \<Rightarrow> (case r of Inl err \<Rightarrow> None | Inr h \<Rightarrow> Some h))"

text \<open>An attempt that has not settled owns the registry entry of its key.\<close>

definition inv_owner :: "state \<Rightarrow> bool" where
  "inv_owner s \<longleftrightarrow>
     (\<forall>t st. stageOf s t = Some st \<longrightarrow> inflight st \<longrightarrow>
        connections s (keyOf s t) = Some (VPromise t))"

text \<open>No own property of the registry shadows a member of \<^verbatim>\<open>Object.prototype\<close>.\<close>

definition inv_proto :: "state \<Rightarrow> bool" where
  "inv_proto s \<longleftrightarrow> (\<forall>k. k \<in> set objectPrototypeKeys \<longrightarrow> connections s k = None)"

text \<open>
  The connection an attempt holds, and the connection stored under a key, was made by
  a \<^verbatim>\<open>createConnection\<close> call of an attempt for that very key.
\<close>

definition inv_handle :: "state \<Rightarrow> bool" where
  "inv_handle s \<longleftrightarrow>
     (\<forall>t st h. stageOf s t = Some st \<longrightarrow> handleOf st = Some h \<longrightarrow>
        h < length (conns s) \<and> conn_key (conns s ! h) = keyOf s t)
   \<and> (\<forall>k h. connections s k = Some (VConn h) \<longrightarrow>
        h < length (conns s) \<and> conn_key (conns s ! h) = k)"

text \<open>Every key of the registry is the id string of a call that was made.\<close>

definition inv_keys :: "state \<Rightarrow> bool" where
  "inv_keys s \<longleftrightarrow>
     (\<forall>k v. connections s k = Some v \<longrightarrow>
        (\<exists>c < length (calls s). call_key (calls s ! c) = Inr k))"

definition reg_inv :: "state \<Rightarrow> bool" where
  "reg_inv s \<longleftrightarrow> inv_owner s \<and> inv_proto s \<and> inv_handle s \<and> inv_keys s"

section \<open>What a run of calls observes\<close>

text \<open>
  From a state \<open>s0\<close> in which key \<open>k\<close> holds connection \<open>h\<close>: the entry is still there,
  no connection has been made for \<open>k\<close> since, and every call for \<open>k\<close> made since was
  resolved with \<open>h\<close>.
\<close>

definition ready_window :: "state \<Rightarrow> string \<Rightarrow> nat \<Rightarrow> state \<Rightarrow> bool" where
  "ready_window s0 k h s \<longleftrightarrow>
     connections s k = Some (VConn h) \<and> attempts s k = attempts s0 k \<and>
     length (calls s0) \<le> length (calls s) \<and>
     (\<forall>c \<in> set (drop (length (calls s0)) (calls s)).
        call_key c = Inr k \<longrightarrow> call_ret c = Inr (VConn h))"

text \<open>What the registry holds for the key of attempt \<open>t\<close> while the attempt has not failed.\<close>

definition entryFor :: "nat \<Rightarrow> stage \<Rightarrow> jsval" where
  "entryFor t st = (case handleOf st of Some h \<Rightarrow> if inflight st then VPromise t else VConn h
                    | None \<Rightarrow> VPromise t)"

text \<open>
  From a state \<open>s0\<close> in which attempt \<open>t\<close> for key \<open>k\<close> is about to start: unless the
  attempt has failed, the registry holds its promise or its connection under \<open>k\<close>, it
  has called the connector once if it is past the profile lookup and not at all before,
  and every call for \<open>k\<close> made since was resolved with its promise or its connection.
\<close>

definition flight_window :: "state \<Rightarrow> string \<Rightarrow> nat \<Rightarrow> state \<Rightarrow> bool" where
  "flight_window s0 k t s \<longleftrightarrow>
     length (calls s0) \<le> length (calls s) \<and> keyOf s t = k \<and>
     (\<exists>st. stageOf s t = Some st \<and>
        ((\<exists>err. st = Settled (Inl err)) \<or>
         (connections s k = Some (entryFor t st) \<and>
          attempts s k = (if st = AwaitLookup then attempts s0 k else Suc (attempts s0 k)) \<and>
          (\<forall>c \<in> set (drop (length (calls s0)) (calls s)).
             call_key c = Inr k \<longrightarrow>
             call_ret c = Inr (VPromise t) \<or> call_ret c = Inr (entryFor t st)))))"

text \<open>The keys of the calls in a list of events, in order.\<close>

fun callKeys :: "event list \<Rightarrow> (jsError + string) list" where
  "callKeys [] = []"
| "callKeys (Call v # evs) = toString v # callKeys evs"
| "callKeys (ev # evs) = callKeys evs"

text \<open>An event with the argument of a call replaced by its string form.\<close>

fun coerce :: "event \<Rightarrow> event" where
  "coerce (Call v) = (case toString v of Inr k \<Rightarrow> Call (IdString k) | Inl err \<Rightarrow> Call v)"
| "coerce ev = ev"

text \<open>Surroundings for concrete runs: one schema, a valid base URI, nothing throws.\<close>

definition demoEnv :: env where
  "demoEnv = \<lparr>schemaNames = [''Cow''], pluralize = None, modelThrows = (\<lambda>m. None),
     mongoUri = Some ''mongodb://localhost:27017''\<rparr>"

text \<open>
  Three calls for user \<^verbatim>\<open>u123\<close>, who has no profile document: the second arrives
  while the profile is being read, the third while the connection is being opened.
\<close>

definition raceRun :: "event list" where
  "raceRun =
     [Call (IdString ''u123''), Call (ObjectId ''u123''), LookupResolved 0 None,
      Call (IdString ''u123''), ConnectResolved 0, CollectionResolved 0]"

text \<open>
  Two calls for user \<^verbatim>\<open>u9\<close> wait for one attempt, which has called the connector.
\<close>

definition failRun :: "event list" where
  "failRun = [Call (IdString ''u9''), LookupResolved 0 None, Call (ObjectId ''u9'')]"

text \<open>
  Two users whose names resolve to the same database: \<^verbatim>\<open>a1\<close> stores the explicit name
  \<^verbatim>\<open>u2\<close>, and \<^verbatim>\<open>u2\<close> has no profile document.
\<close>

definition sharedNameRun :: "event list" where
  "sharedNameRun =
     [Call (IdString ''a1''), Call (IdString ''u2''),
      LookupResolved 0 (Some \<lparr>tenantDbName = Some ''u2''\<rparr>), LookupResolved 1 None,
      ConnectResolved 0, ConnectResolved 1, CollectionResolved 0, CollectionResolved 1]"

text \<open>
  One call for user \<^verbatim>\<open>u1\<close>; the creation of the collection of the one schema is
  rejected with an error that is not the already-exists condition.
\<close>

definition swallowRun :: "event list" where
  "swallowRun =
     [Call (IdString ''u1''), LookupResolved 0 None, ConnectResolved 0,
      CollectionRejected 0 (DriverError ''not authorized'')]"

section \<open>Name resolution\<close>

lemma startsWith_prefix [simp]: "startsWith (dbPrefix @ x) dbPrefix"
  by (simp add: startsWith_def)

lemma normalizeName_prefixed [simp]: "normalizeName (dbPrefix @ x) = dbPrefix @ x"
  by (simp add: normalizeName_def)

lemma normalizeName_idem: "normalizeName (normalizeName x) = normalizeName x"
  by (simp add: normalizeName_def)

lemma resolveDbName_None [simp]: "resolveDbName None idStr = dbPrefix @ idStr"
  by (simp add: resolveDbName_def dbIdentifier_def)

lemma resolveDbName_unnamed:
  "tenantDbName u = None \<Longrightarrow> resolveDbName (Some u) idStr = dbPrefix @ idStr"
  by (simp add: resolveDbName_def dbIdentifier_def)

lemma resolveDbName_empty:
  "tenantDbName u = Some [] \<Longrightarrow> resolveDbName (Some u) idStr = dbPrefix @ idStr"
  by (simp add: resolveDbName_def dbIdentifier_def)

lemma resolveDbName_named:
  "tenantDbName u = Some n \<Longrightarrow> n \<noteq> [] \<Longrightarrow> resolveDbName (Some u) idStr = normalizeName n"
  by (simp add: resolveDbName_def dbIdentifier_def)

text \<open>
  Claim C4, as stated, fails: a profile can carry an explicit \<^verbatim>\<open>tenantDbName\<close> that
  is the empty string. It is falsy on line 28, so it is not used: the name resolves to
  the prefix followed by the user id, not to the stored name with the prefix added.
\<close>

theorem name_resolution_counterexample:
  "tenantDbName \<lparr>tenantDbName = Some []\<rparr> = Some []
   \<and> resolveDbName (Some \<lparr>tenantDbName = Some []\<rparr>) ''u1'' = ''AI_FARM_user_u1''
   \<and> resolveDbName (Some \<lparr>tenantDbName = Some []\<rparr>) ''u1''
       \<noteq> (if startsWith [] dbPrefix then [] else dbPrefix @ [])"
  by (simp add: resolveDbName_def dbIdentifier_def normalizeName_def startsWith_def
      dbPrefix_def)

text \<open>
  Claim C4, amended. A profile that carries a non-empty \<^verbatim>\<open>tenantDbName\<close> resolves to
  that name, with the prefix added when the name does not already start with it. A
  profile whose \<^verbatim>\<open>tenantDbName\<close> is absent or empty, and a lookup that yields no
  profile, resolve to the prefix followed by the user id, so user \<^verbatim>\<open>u123\<close> without a
  stored name resolves to \<^verbatim>\<open>AI_FARM_user_u123\<close>.
\<close>

theorem name_resolution_precedence:
  "(tenantDbName u = Some n \<and> n \<noteq> [] \<longrightarrow>
      resolveDbName (Some u) idStr = (if startsWith n dbPrefix then n else dbPrefix @ n))
   \<and> (tenantDbName u = None \<or> tenantDbName u = Some [] \<longrightarrow>
        resolveDbName (Some u) idStr = dbPrefix @ idStr)
   \<and> resolveDbName None idStr = dbPrefix @ idStr
   \<and> resolveDbName (Some \<lparr>tenantDbName = None\<rparr>) ''u123'' = ''AI_FARM_user_u123''"
  by (auto simp: resolveDbName_named resolveDbName_unnamed resolveDbName_empty
      normalizeName_def dbPrefix_def)

theorem name_resolution_precedence_witness:
  "resolveDbName (Some \<lparr>tenantDbName = Some ''farm7''\<rparr>) ''u1'' = ''AI_FARM_user_farm7''
   \<and> resolveDbName (Some \<lparr>tenantDbName = Some ''AI_FARM_user_farm7''\<rparr>) ''u1''
        = ''AI_FARM_user_farm7''
   \<and> resolveDbName (Some \<lparr>tenantDbName = None\<rparr>) ''u1'' = ''AI_FARM_user_u1''
   \<and> resolveDbName (Some \<lparr>tenantDbName = Some []\<rparr>) ''u1'' = ''AI_FARM_user_u1''"
  using name_resolution_precedence
          [of "\<lparr>tenantDbName = Some ''farm7''\<rparr>" "''farm7''" "''u1''"]
        name_resolution_precedence
          [of "\<lparr>tenantDbName = Some ''AI_FARM_user_farm7''\<rparr>" "''AI_FARM_user_farm7''" "''u1''"]
        name_resolution_precedence [of "\<lparr>tenantDbName = None\<rparr>" "''x''" "''u1''"]
        name_resolution_precedence [of "\<lparr>tenantDbName = Some []\<rparr>" "''x''" "''u1''"]
  by (simp add: startsWith_def dbPrefix_def)

text \<open>
  Claim C7, as stated, fails: a stored name that already starts with the prefix is kept
  as it is, so it and its prefixed form resolve to two different names; and an empty
  stored name is falsy, so it resolves to the name derived from the user id while its
  prefixed form, the bare prefix, is kept.
\<close>

theorem prefix_normalization_counterexample:
  "resolveDbName (Some \<lparr>tenantDbName = Some ''AI_FARM_user_x''\<rparr>) ''u1''
     \<noteq> resolveDbName
          (Some \<lparr>tenantDbName = Some (''AI_FARM_user_'' @ ''AI_FARM_user_x'')\<rparr>) ''u1''
   \<and> resolveDbName (Some \<lparr>tenantDbName = Some []\<rparr>) ''u1''
     \<noteq> resolveDbName (Some \<lparr>tenantDbName = Some (''AI_FARM_user_'' @ [])\<rparr>) ''u1''"
  by (simp add: resolveDbName_def dbIdentifier_def normalizeName_def startsWith_def
      dbPrefix_def)

text \<open>
  Claim C7, amended. For every non-empty string \<open>s\<close> that does not itself start with the
  prefix, a profile storing \<open>s\<close> and a profile storing the prefix followed by \<open>s\<close> resolve
  to the same database name, the prefix followed by \<open>s\<close>, whatever the user ids are.
\<close>

theorem prefix_normalization_bare:
  assumes "s \<noteq> []" and "\<not> startsWith s dbPrefix"
    and "tenantDbName u1 = Some s" and "tenantDbName u2 = Some (dbPrefix @ s)"
  shows "resolveDbName (Some u1) i = resolveDbName (Some u2) j
    \<and> resolveDbName (Some u1) i = dbPrefix @ s"
proof -
  have "resolveDbName (Some u1) i = normalizeName s"
    using assms by (simp add: resolveDbName_named)
  moreover have "resolveDbName (Some u2) j = normalizeName (dbPrefix @ s)"
    using assms by (simp add: resolveDbName_named dbPrefix_def)
  ultimately show ?thesis
    using assms(2) by (simp add: normalizeName_def)
qed

theorem prefix_normalization_bare_witness:
  "resolveDbName (Some \<lparr>tenantDbName = Some ''farm7''\<rparr>) ''u1''
     = resolveDbName (Some \<lparr>tenantDbName = Some ''AI_FARM_user_farm7''\<rparr>) ''u2''
   \<and> resolveDbName (Some \<lparr>tenantDbName = Some ''farm7''\<rparr>) ''u1'' = ''AI_FARM_user_farm7''"
proof -
  have a: "''farm7'' \<noteq> []" by simp
  have b: "\<not> startsWith ''farm7'' dbPrefix" by (simp add: startsWith_def dbPrefix_def)
  have c: "tenantDbName \<lparr>tenantDbName = Some ''farm7''\<rparr> = Some ''farm7''" by simp
  have d: "tenantDbName \<lparr>tenantDbName = Some ''AI_FARM_user_farm7''\<rparr>
             = Some (dbPrefix @ ''farm7'')"
    by (simp add: dbPrefix_def)
  show ?thesis
    using prefix_normalization_bare [OF a b c d, of "''u1''" "''u2''"]
    by (auto simp: dbPrefix_def)
qed

section \<open>Projections of the state transformers\<close>

lemma stageOf_lt: "stageOf s t = Some st \<Longrightarrow> t < length (tasks s)"
  by (simp add: stageOf_def split: if_splits)

lemma setStage_simps [simp]:
  "connections (setStage s t st) = connections s"
  "conns (setStage s t st) = conns s"
  "calls (setStage s t st) = calls s"
  "length (tasks (setStage s t st)) = length (tasks s)"
  by (simp_all add: setStage_def)

lemma keyOf_setStage [simp]: "keyOf (setStage s t st) t' = keyOf s t'"
  by (cases "t < length (tasks s)")
    (simp_all add: keyOf_def setStage_def nth_list_update list_update_beyond linorder_not_less)

lemma stageOf_setStage:
  "stageOf (setStage s t st) t' =
     (if t' = t \<and> t < length (tasks s) then Some st else stageOf s t')"
  by (simp add: stageOf_def setStage_def nth_list_update)

lemma stageOf_upd [simp]:
  "stageOf (s\<lparr>connections := m\<rparr>) t = stageOf s t"
  "stageOf (s\<lparr>conns := cs\<rparr>) t = stageOf s t"
  "stageOf (s\<lparr>calls := cl\<rparr>) t = stageOf s t"
  by (simp_all add: stageOf_def)

lemma keyOf_upd [simp]:
  "keyOf (s\<lparr>connections := m\<rparr>) t = keyOf s t"
  "keyOf (s\<lparr>conns := cs\<rparr>) t = keyOf s t"
  "keyOf (s\<lparr>calls := cl\<rparr>) t = keyOf s t"
  by (simp_all add: keyOf_def)

lemma failTask_simps [simp]:
  "connections (failTask s t err) = (connections s)(keyOf s t := None)"
  "conns (failTask s t err) = conns s"
  "calls (failTask s t err) = calls s"
  "length (tasks (failTask s t err)) = length (tasks s)"
  "keyOf (failTask s t err) t' = keyOf s t'"
  by (simp_all add: failTask_def)

lemma stageOf_failTask:
  "stageOf s t = Some st \<Longrightarrow>
   stageOf (failTask s t err) t' = (if t' = t then Some (Settled (Inl err)) else stageOf s t')"
  by (simp add: failTask_def stageOf_setStage stageOf_lt)

lemma succeedTask_simps [simp]:
  "connections (succeedTask s t h) = (connections s)(keyOf s t \<mapsto> VConn h)"
  "conns (succeedTask s t h) = conns s"
  "calls (succeedTask s t h) = calls s"
  "length (tasks (succeedTask s t h)) = length (tasks s)"
  "keyOf (succeedTask s t h) t' = keyOf s t'"
  by (simp_all add: succeedTask_def)

lemma stageOf_succeedTask:
  "stageOf s t = Some st \<Longrightarrow>
   stageOf (succeedTask s t h) t' = (if t' = t then Some (Settled (Inr h)) else stageOf s t')"
  by (simp add: succeedTask_def stageOf_setStage stageOf_lt)

lemma recordCall_simps [simp]:
  "connections (recordCall s k r) = connections s"
  "conns (recordCall s k r) = conns s"
  "tasks (recordCall s k r) = tasks s"
  "calls (recordCall s k r) = calls s @ [\<lparr>call_key = k, call_ret = r\<rparr>]"
  "stageOf (recordCall s k r) t = stageOf s t"
  "keyOf (recordCall s k r) t = keyOf s t"
  by (simp_all add: recordCall_def)

lemma startAttempt_simps [simp]:
  "connections (startAttempt s k) = (connections s)(k \<mapsto> VPromise (length (tasks s)))"
  "conns (startAttempt s k) = conns s"
  "calls (startAttempt s k) = calls s"
  "length (tasks (startAttempt s k)) = Suc (length (tasks s))"
  by (simp_all add: startAttempt_def)

lemma stageOf_startAttempt:
  "stageOf (startAttempt s k) t =
     (if t = length (tasks s) then Some AwaitLookup else stageOf s t)"
  by (simp add: startAttempt_def stageOf_def nth_append)

lemma keyOf_startAttempt:
  "t \<le> length (tasks s) \<Longrightarrow>
   keyOf (startAttempt s k) t = (if t = length (tasks s) then k else keyOf s t)"
  by (simp add: startAttempt_def keyOf_def nth_append)

text \<open>The three ways a call can go.\<close>

lemma getTenantConnection_throw:
  "toString v = Inl err \<Longrightarrow> getTenantConnection s v = recordCall s (Inl err) (Inl err)"
  by (simp add: getTenantConnection_def)

lemma getTenantConnection_hit:
  "toString v = Inr k \<Longrightarrow> lookupEntry (connections s) k = Some x \<Longrightarrow>
   getTenantConnection s v = recordCall s (Inr k) (Inr x)"
  by (simp add: getTenantConnection_def)

lemma getTenantConnection_miss:
  "toString v = Inr k \<Longrightarrow> lookupEntry (connections s) k = None \<Longrightarrow>
   getTenantConnection s v =
     recordCall (startAttempt s k) (Inr k) (Inr (VPromise (length (tasks s))))"
  by (simp add: getTenantConnection_def)

lemma lookupEntry_None:
  "lookupEntry m k = None \<longleftrightarrow> m k = None \<and> k \<notin> set objectPrototypeKeys"
  by (simp add: lookupEntry_def split: option.splits)

lemma lookupEntry_own: "m k = Some v \<Longrightarrow> lookupEntry m k = Some v"
  by (simp add: lookupEntry_def)

text \<open>The two ways the lookup can continue, and the two ways the schema loop can.\<close>

lemma openConnection_bad_uri:
  "mongoUri e = None \<Longrightarrow> openConnection e s t usr = failTask s t TypeError"
  by (simp add: openConnection_def)

lemma openConnection_ok:
  "mongoUri e = Some base \<Longrightarrow>
   openConnection e s t usr =
     setStage
       (s\<lparr>conns := conns s @
          [newConnection (keyOf s t) base (resolveDbName usr (keyOf s t))]\<rparr>) t
       (AwaitConnect (length (conns s)))"
  by (simp add: openConnection_def Let_def)

lemma conn_key_newConnection [simp]: "conn_key (newConnection k b d) = k"
  by (simp add: newConnection_def)

lemma conn_db_newConnection [simp]: "conn_db (newConnection k b d) = d"
  by (simp add: newConnection_def)

lemma conn_key_registerModel [simp]: "conn_key (registerModel e m c) = conn_key c"
  by (simp add: registerModel_def)

lemma conn_db_registerModel [simp]: "conn_db (registerModel e m c) = conn_db c"
  by (simp add: registerModel_def)

lemma inflight_simps [simp]:
  "inflight AwaitLookup" "inflight (AwaitConnect h)" "inflight (AwaitCollection h ms)"
  "\<not> inflight (Settled r)"
  by (simp_all add: inflight_def)

lemma handleOf_simps [simp]:
  "handleOf AwaitLookup = None" "handleOf (AwaitConnect h) = Some h"
  "handleOf (AwaitCollection h ms) = Some h"
  "handleOf (Settled (Inl err)) = None" "handleOf (Settled (Inr h)) = Some h"
  by (simp_all add: handleOf_def)

text \<open>
  Every turn of the event loop leaves the state as it is or applies one of seven
  transformers; a property of all of them is a property of every turn.
\<close>

lemma step_cases [case_names idle throw hit miss fail dial succeed register]:
  assumes "P s"
    and "\<And>err. P (recordCall s (Inl err) (Inl err))"
    and "\<And>k x v. lookupEntry (connections s) k = Some x \<Longrightarrow> ev = Call v \<Longrightarrow>
           toString v = Inr k \<Longrightarrow> P (recordCall s (Inr k) (Inr x))"
    and "\<And>k v. lookupEntry (connections s) k = None \<Longrightarrow> ev = Call v \<Longrightarrow>
           toString v = Inr k \<Longrightarrow>
           P (recordCall (startAttempt s k) (Inr k) (Inr (VPromise (length (tasks s)))))"
    and "\<And>t st err. stageOf s t = Some st \<Longrightarrow> inflight st \<Longrightarrow> P (failTask s t err)"
    and "\<And>t usr base. stageOf s t = Some AwaitLookup \<Longrightarrow>
           P (setStage
                (s\<lparr>conns := conns s @
                   [newConnection (keyOf s t) base (resolveDbName usr (keyOf s t))]\<rparr>) t
                (AwaitConnect (length (conns s))))"
    and "\<And>t st h. stageOf s t = Some st \<Longrightarrow> inflight st \<Longrightarrow> handleOf st = Some h \<Longrightarrow>
           P (succeedTask s t h)"
    and "\<And>t st h m ms. stageOf s t = Some st \<Longrightarrow> inflight st \<Longrightarrow> handleOf st = Some h \<Longrightarrow>
           P (setStage (s\<lparr>conns := (conns s)[h := registerModel e m (conns s ! h)]\<rparr>) t
                (AwaitCollection h ms))"
  shows "P (step e s ev)"
proof -
  have loop: "P (schemaLoop e s t h ms)"
    if "stageOf s t = Some st" "inflight st" "handleOf st = Some h" for t st h ms
    using that assms(5,7,8) by (cases ms) (auto split: option.splits)
  show ?thesis
  proof (cases ev)
    case (Call v)
    show ?thesis
    proof (cases "toString v")
      case (Inl err)
      with Call assms(2) show ?thesis by (simp add: getTenantConnection_throw)
    next
      case (Inr k)
      with Call assms(3,4) show ?thesis
        by (cases "lookupEntry (connections s) k")
          (simp_all add: getTenantConnection_miss getTenantConnection_hit)
    qed
  next
    case (LookupResolved t usr)
    with assms(1,5,6) show ?thesis
      by (cases "mongoUri e")
        (auto simp: openConnection_bad_uri openConnection_ok split: option.splits stage.splits)
  next
    case (LookupRejected t err)
    with assms(1,5) show ?thesis by (auto split: option.splits stage.splits)
  next
    case (ConnectResolved t)
    with assms(1) loop show ?thesis by (auto split: option.splits stage.splits)
  next
    case (ConnectRejected t err)
    with assms(1,5) show ?thesis by (auto split: option.splits stage.splits)
  next
    case (CollectionResolved t)
    with assms(1) loop show ?thesis by (auto split: option.splits stage.splits)
  next
    case (CollectionRejected t err)
    with assms(1) loop show ?thesis by (auto split: option.splits stage.splits)
  qed
qed

section \<open>The invariants hold in every reachable state\<close>

lemma owner_entry:
  "inv_owner s \<Longrightarrow> stageOf s t = Some st \<Longrightarrow> inflight st \<Longrightarrow>
   connections s (keyOf s t) = Some (VPromise t)"
  by (simp add: inv_owner_def)

lemma owner_other_key:
  assumes "inv_owner s" and "stageOf s t = Some st" and "inflight st"
    and "stageOf s t' = Some st'" and "inflight st'" and "t' \<noteq> t"
  shows "keyOf s t' \<noteq> keyOf s t"
  using owner_entry [OF assms(1,2,3)] owner_entry [OF assms(1,4,5)] assms(6) by auto

lemma inv_owner_step: "inv_owner s \<Longrightarrow> inv_owner (step e s ev)"
proof (induction rule: step_cases [where e = e and s = s and ev = ev])
  case idle
  then show ?case .
next
  case (throw err)
  then show ?case by (simp add: inv_owner_def)
next
  case (hit k x v)
  then show ?case by (simp add: inv_owner_def)
next
  case (miss k v)
  then have none: "connections s k = None" by (simp add: lookupEntry_None)
  show ?case
    unfolding inv_owner_def
  proof (intro allI impI)
    fix t st
    let ?s' = "recordCall (startAttempt s k) (Inr k) (Inr (VPromise (length (tasks s))))"
    assume a: "stageOf ?s' t = Some st" and b: "inflight st"
    show "connections ?s' (keyOf ?s' t) = Some (VPromise t)"
    proof (cases "t = length (tasks s)")
      case True
      then show ?thesis by (simp add: keyOf_startAttempt)
    next
      case False
      with a have old: "stageOf s t = Some st" by (simp add: stageOf_startAttempt)
      then have lt: "t < length (tasks s)" by (rule stageOf_lt)
      from owner_entry [OF miss.prems(1) old b] none have "keyOf s t \<noteq> k" by auto
      with owner_entry [OF miss.prems(1) old b] lt False show ?thesis
        by (simp add: keyOf_startAttempt)
    qed
  qed
next
  case (fail t st err)
  show ?case
    unfolding inv_owner_def
  proof (intro allI impI)
    fix t' st'
    assume a: "stageOf (failTask s t err) t' = Some st'" and b: "inflight st'"
    from a b fail.hyps(1) have ne: "t' \<noteq> t" and old: "stageOf s t' = Some st'"
      by (auto simp: stageOf_failTask split: if_splits)
    from owner_other_key [OF fail.prems(1) fail.hyps(1) fail.hyps(2) old b ne] owner_entry [OF fail.prems(1) old b]
    show "connections (failTask s t err) (keyOf (failTask s t err) t') = Some (VPromise t')"
      by simp
  qed
next
  case (dial t usr base)
  then show ?case
    by (auto simp: inv_owner_def stageOf_setStage split: if_splits)
next
  case (succeed t st h)
  show ?case
    unfolding inv_owner_def
  proof (intro allI impI)
    fix t' st'
    assume a: "stageOf (succeedTask s t h) t' = Some st'" and b: "inflight st'"
    from a b succeed.hyps(1) have ne: "t' \<noteq> t" and old: "stageOf s t' = Some st'"
      by (auto simp: stageOf_succeedTask split: if_splits)
    from owner_other_key [OF succeed.prems(1) succeed.hyps(1) succeed.hyps(2) old b ne] owner_entry [OF succeed.prems(1) old b]
    show "connections (succeedTask s t h) (keyOf (succeedTask s t h) t') = Some (VPromise t')"
      by simp
  qed
next
  case (register t st h m ms)
  then show ?case
    by (auto simp: inv_owner_def stageOf_setStage split: if_splits)
qed

lemma inv_proto_step: "inv_owner s \<Longrightarrow> inv_proto s \<Longrightarrow> inv_proto (step e s ev)"
proof (induction rule: step_cases [where e = e and s = s and ev = ev])
  case (miss k v)
  then show ?case by (auto simp: inv_proto_def lookupEntry_None)
next
  case (succeed t st h)
  from owner_entry [OF succeed.prems(1) succeed.hyps(1) succeed.hyps(2)] succeed.prems(2) show ?case
    by (auto simp: inv_proto_def)
qed (simp_all add: inv_proto_def)

lemma inv_keys_step: "inv_owner s \<Longrightarrow> inv_keys s \<Longrightarrow> inv_keys (step e s ev)"
proof (induction rule: step_cases [where e = e and s = s and ev = ev])
  case idle
  then show ?case by simp
next
  case (throw err)
  then show ?case
    unfolding inv_keys_def by (auto simp: nth_append intro: less_SucI)
next
  case (hit k x v)
  then show ?case
    unfolding inv_keys_def by (auto simp: nth_append intro: less_SucI)
next
  case (miss k v)
  show ?case
    unfolding inv_keys_def
  proof (intro allI impI)
    fix k' v
    let ?s' = "recordCall (startAttempt s k) (Inr k) (Inr (VPromise (length (tasks s))))"
    assume a: "connections ?s' k' = Some v"
    show "\<exists>c<length (calls ?s'). call_key (calls ?s' ! c) = Inr k'"
    proof (cases "k' = k")
      case True
      then have "call_key (calls ?s' ! length (calls s)) = Inr k'" by simp
      then show ?thesis by (intro exI [of _ "length (calls s)"]) simp
    next
      case False
      with a have "connections s k' = Some v" by simp
      with miss.prems(2) obtain c where "c < length (calls s)" "call_key (calls s ! c) = Inr k'"
        by (auto simp: inv_keys_def)
      then show ?thesis by (intro exI [of _ c]) (simp add: nth_append)
    qed
  qed
next
  case (fail t st err)
  then show ?case
    unfolding inv_keys_def by (auto split: if_splits)
next
  case (dial t usr base)
  then show ?case by (simp add: inv_keys_def)
next
  case (succeed t st h)
  from owner_entry [OF succeed.prems(1) succeed.hyps(1) succeed.hyps(2)] succeed.prems(2) show ?case
    unfolding inv_keys_def by (auto split: if_splits)
next
  case (register t st h m ms)
  then show ?case by (simp add: inv_keys_def)
qed

lemma handle_of_task:
  "inv_handle s \<Longrightarrow> stageOf s t = Some st \<Longrightarrow> handleOf st = Some h \<Longrightarrow>
   h < length (conns s) \<and> conn_key (conns s ! h) = keyOf s t"
  by (simp add: inv_handle_def)

lemma handle_of_entry:
  "inv_handle s \<Longrightarrow> connections s k = Some (VConn h) \<Longrightarrow>
   h < length (conns s) \<and> conn_key (conns s ! h) = k"
  by (simp add: inv_handle_def)

lemma inv_handle_step: "inv_owner s \<Longrightarrow> inv_handle s \<Longrightarrow> inv_handle (step e s ev)"
proof (induction rule: step_cases [where e = e and s = s and ev = ev])
  case idle
  then show ?case by simp
next
  case (throw err)
  then show ?case by (simp add: inv_handle_def)
next
  case (hit k x v)
  then show ?case by (simp add: inv_handle_def)
next
  case (miss k v)
  let ?s' = "recordCall (startAttempt s k) (Inr k) (Inr (VPromise (length (tasks s))))"
  have "h < length (conns ?s') \<and> conn_key (conns ?s' ! h) = keyOf ?s' t"
    if "stageOf ?s' t = Some st" "handleOf st = Some h" for t st h
  proof -
    from that have old: "stageOf s t = Some st" and ne: "t \<noteq> length (tasks s)"
      by (auto simp: stageOf_startAttempt split: if_splits)
    from old have "t < length (tasks s)" by (rule stageOf_lt)
    with handle_of_task [OF miss.prems(2) old that(2)] show ?thesis
      by (simp add: keyOf_startAttempt)
  qed
  moreover have "h < length (conns ?s') \<and> conn_key (conns ?s' ! h) = k'"
    if "connections ?s' k' = Some (VConn h)" for k' h
    using that handle_of_entry [OF miss.prems(2), of k' h] by (auto split: if_splits)
  ultimately show ?case
    unfolding inv_handle_def by blast
next
  case (fail t st err)
  let ?s' = "failTask s t err"
  have "h < length (conns ?s') \<and> conn_key (conns ?s' ! h) = keyOf ?s' t'"
    if "stageOf ?s' t' = Some st'" "handleOf st' = Some h" for t' st' h
    using that fail.hyps(1) handle_of_task [OF fail.prems(2), of t' st' h]
    by (auto simp: stageOf_failTask split: if_splits)
  moreover have "h < length (conns ?s') \<and> conn_key (conns ?s' ! h) = k'"
    if "connections ?s' k' = Some (VConn h)" for k' h
    using that handle_of_entry [OF fail.prems(2), of k' h] by (auto split: if_splits)
  ultimately show ?case
    unfolding inv_handle_def by blast
next
  case (dial t usr base)
  let ?s' = "setStage
      (s\<lparr>conns := conns s @ [newConnection (keyOf s t) base (resolveDbName usr (keyOf s t))]\<rparr>)
      t (AwaitConnect (length (conns s)))"
  have "h < length (conns ?s') \<and> conn_key (conns ?s' ! h) = keyOf ?s' t'"
    if "stageOf ?s' t' = Some st'" "handleOf st' = Some h" for t' st' h
  proof (cases "t' = t")
    case True
    with that dial.hyps(1) have "h = length (conns s)"
      by (auto simp: stageOf_setStage dest: stageOf_lt split: if_splits)
    with True show ?thesis by simp
  next
    case False
    with that have "stageOf s t' = Some st'" by (simp add: stageOf_setStage)
    from handle_of_task [OF dial.prems(2) this that(2)] show ?thesis
      by (simp add: nth_append)
  qed
  moreover have "h < length (conns ?s') \<and> conn_key (conns ?s' ! h) = k'"
    if "connections ?s' k' = Some (VConn h)" for k' h
    using that handle_of_entry [OF dial.prems(2), of k' h] by (auto simp: nth_append)
  ultimately show ?case
    unfolding inv_handle_def by blast
next
  case (succeed t st h)
  let ?s' = "succeedTask s t h"
  note th = handle_of_task [OF succeed.prems(2) succeed.hyps(1) succeed.hyps(3)]
  have "h' < length (conns ?s') \<and> conn_key (conns ?s' ! h') = keyOf ?s' t'"
    if "stageOf ?s' t' = Some st'" "handleOf st' = Some h'" for t' st' h'
    using that succeed.hyps(1) th handle_of_task [OF succeed.prems(2), of t' st' h']
    by (auto simp: stageOf_succeedTask split: if_splits)
  moreover have "h' < length (conns ?s') \<and> conn_key (conns ?s' ! h') = k'"
    if "connections ?s' k' = Some (VConn h')" for k' h'
    using that th handle_of_entry [OF succeed.prems(2), of k' h'] by (auto split: if_splits)
  ultimately show ?case
    unfolding inv_handle_def by blast
next
  case (register t st h m ms)
  let ?s' = "setStage (s\<lparr>conns := (conns s)[h := registerModel e m (conns s ! h)]\<rparr>) t
      (AwaitCollection h ms)"
  note th = handle_of_task [OF register.prems(2) register.hyps(1) register.hyps(3)]
  have key: "conn_key (conns ?s' ! i) = conn_key (conns s ! i)" for i
    by (cases "i = h") (simp_all add: th)
  have "h' < length (conns ?s') \<and> conn_key (conns ?s' ! h') = keyOf ?s' t'"
    if "stageOf ?s' t' = Some st'" "handleOf st' = Some h'" for t' st' h'
  proof (cases "t' = t")
    case True
    with that register.hyps(1) have "h' = h"
      by (auto simp: stageOf_setStage dest: stageOf_lt split: if_splits)
    with True th key [of h] show ?thesis by simp
  next
    case False
    with that have "stageOf s t' = Some st'" by (simp add: stageOf_setStage)
    from handle_of_task [OF register.prems(2) this that(2)] key [of h'] show ?thesis
      by simp
  qed
  moreover have "h' < length (conns ?s') \<and> conn_key (conns ?s' ! h') = k'"
    if "connections ?s' k' = Some (VConn h')" for k' h'
    using that handle_of_entry [OF register.prems(2), of k' h'] key [of h'] by simp
  ultimately show ?case
    unfolding inv_handle_def by blast
qed

lemma reg_inv_init: "reg_inv init"
  by (simp add: reg_inv_def inv_owner_def inv_proto_def inv_handle_def inv_keys_def init_def
      stageOf_def)

lemma reg_inv_step: "reg_inv s \<Longrightarrow> reg_inv (step e s ev)"
  by (simp add: reg_inv_def inv_owner_step inv_proto_step inv_handle_step inv_keys_step)

lemma run_Nil [simp]: "run e s [] = s"
  by (simp add: run_def)

lemma run_Cons [simp]: "run e s (ev # evs) = run e (step e s ev) evs"
  by (simp add: run_def)

lemma run_append: "run e s (xs @ ys) = run e (run e s xs) ys"
  by (simp add: run_def)

lemma run_snoc: "run e s (evs @ [ev]) = step e (run e s evs) ev"
  by (simp add: run_def)

lemma reg_inv_run: "reg_inv s \<Longrightarrow> reg_inv (run e s evs)"
  by (induction evs arbitrary: s) (simp_all add: reg_inv_step)

lemma reg_inv_reachable: "reg_inv (run e init evs)"
  by (rule reg_inv_run [OF reg_inv_init])

section \<open>Counting connector calls\<close>

lemma attempts_simps [simp]:
  "attempts (s\<lparr>connections := m\<rparr>) k = attempts s k"
  "attempts (s\<lparr>calls := cl\<rparr>) k = attempts s k"
  "attempts (setStage s t st) k = attempts s k"
  "attempts (failTask s t err) k = attempts s k"
  "attempts (succeedTask s t h) k = attempts s k"
  "attempts (recordCall s ck r) k = attempts s k"
  "attempts (startAttempt s k') k = attempts s k"
  by (simp_all add: attempts_def)

lemma attempts_snoc:
  "attempts (s\<lparr>conns := conns s @ [c]\<rparr>) k = (if conn_key c = k then Suc (attempts s k) else attempts s k)"
  by (simp add: attempts_def)

lemma length_filter_update:
  "P y = P (xs ! h) \<Longrightarrow> length (filter P (xs[h := y])) = length (filter P xs)"
  by (induction xs arbitrary: h) (auto split: nat.splits)

lemma attempts_register:
  "attempts (s\<lparr>conns := (conns s)[h := registerModel e m (conns s ! h)]\<rparr>) k = attempts s k"
  by (simp add: attempts_def length_filter_update)

lemma nth_in_drop: "n \<le> c \<Longrightarrow> c < length xs \<Longrightarrow> xs ! c \<in> set (drop n xs)"
  by (auto simp: in_set_conv_nth intro!: exI [of _ "c - n"])

section \<open>A ready entry stays\<close>

lemma ready_not_owned:
  assumes "inv_owner s" and "connections s k = Some (VConn h)"
    and "stageOf s t = Some st" and "inflight st"
  shows "keyOf s t \<noteq> k"
  using owner_entry [OF assms(1,3,4)] assms(2) by auto

lemma ready_window_refl: "connections s k = Some (VConn h) \<Longrightarrow> ready_window s k h s"
  by (simp add: ready_window_def)

lemma ready_window_step:
  "inv_owner s \<Longrightarrow> ready_window s0 k h s \<Longrightarrow> ready_window s0 k h (step e s ev)"
proof (induction rule: step_cases [where e = e and s = s and ev = ev])
  case idle
  then show ?case by simp
next
  case (throw err)
  then show ?case
    by (simp add: ready_window_def )
next
  case (hit k' x v)
  then show ?case
    by (auto simp: ready_window_def  lookupEntry_own)
next
  case (miss k' v)
  then have "k' \<noteq> k"
    by (auto simp: ready_window_def lookupEntry_None)
  with miss.prems show ?case
    by (simp add: ready_window_def )
next
  case (fail t st err)
  from fail.prems have "connections s k = Some (VConn h)" by (simp add: ready_window_def)
  from ready_not_owned [OF fail.prems(1) this fail.hyps] fail.prems(2) show ?case
    by (simp add: ready_window_def)
next
  case (dial t usr base)
  from dial.prems have "connections s k = Some (VConn h)" by (simp add: ready_window_def)
  from ready_not_owned [OF dial.prems(1) this dial.hyps] dial.prems(2) show ?case
    by (simp add: ready_window_def attempts_snoc)
next
  case (succeed t st h')
  from succeed.prems have "connections s k = Some (VConn h)" by (simp add: ready_window_def)
  from ready_not_owned [OF succeed.prems(1) this succeed.hyps(1,2)] succeed.prems(2)
  show ?case
    by (simp add: ready_window_def)
next
  case (register t st h' m ms)
  then show ?case
    by (simp add: ready_window_def attempts_register)
qed

lemma ready_window_run:
  "reg_inv s \<Longrightarrow> ready_window s0 k h s \<Longrightarrow> ready_window s0 k h (run e s evs)"
proof (induction evs arbitrary: s)
  case Nil
  then show ?case by simp
next
  case (Cons ev evs)
  from Cons.prems have "inv_owner s" by (simp add: reg_inv_def)
  from Cons.IH [OF reg_inv_step [OF Cons.prems(1)] ready_window_step [OF this Cons.prems(2)]]
  show ?case by simp
qed

lemma callResult_conn:
  "c < length (calls s) \<Longrightarrow> call_ret (calls s ! c) = Inr (VConn h) \<Longrightarrow>
   callResult s c = Some (Inr (VConn h))"
  by (simp add: callResult_def)

lemma callResult_promise:
  "c < length (calls s) \<Longrightarrow> call_ret (calls s ! c) = Inr (VPromise t) \<Longrightarrow>
   stageOf s t = Some (Settled r) \<Longrightarrow>
   callResult s c = Some (case r of Inl err \<Rightarrow> Inl err | Inr h \<Rightarrow> Inr (VConn h))"
  by (simp add: callResult_def split: sum.splits)

section \<open>One attempt in flight\<close>

lemma entryFor_simps [simp]:
  "entryFor t AwaitLookup = VPromise t"
  "entryFor t (AwaitConnect h) = VPromise t"
  "entryFor t (AwaitCollection h ms) = VPromise t"
  "entryFor t (Settled (Inl err)) = VPromise t"
  "entryFor t (Settled (Inr h)) = VConn h"
  by (simp_all add: entryFor_def)

lemma entryFor_inflight: "inflight st \<Longrightarrow> entryFor t st = VPromise t"
  by (cases st) simp_all

lemma entryFor_other: "t' \<noteq> t \<Longrightarrow> entryFor t st \<noteq> VPromise t'"
  by (simp add: entryFor_def split: option.splits)

lemma flight_other_key:
  assumes "inv_owner s" and "connections s k = Some (entryFor t st)"
    and "stageOf s t' = Some st'" and "inflight st'" and "t' \<noteq> t"
  shows "keyOf s t' \<noteq> k"
  using owner_entry [OF assms(1,3,4)] assms(2) entryFor_other [OF assms(5), of st] by auto

lemma flight_window_start:
  assumes "lookupEntry (connections s) k = None"
  shows "flight_window s k (length (tasks s))
           (recordCall (startAttempt s k) (Inr k) (Inr (VPromise (length (tasks s)))))"
  by (simp add: flight_window_def keyOf_startAttempt stageOf_startAttempt)

lemma flight_window_step:
  "inv_owner s \<Longrightarrow> flight_window s0 k t s \<Longrightarrow> flight_window s0 k t (step e s ev)"
proof (induction rule: step_cases [where e = e and s = s and ev = ev])
  case idle
  then show ?case by simp
next
  case (throw err)
  then show ?case
    by (auto simp: flight_window_def)
next
  case (hit k' x v)
  then show ?case
    by (auto simp: flight_window_def lookupEntry_own)
next
  case (miss k' v)
  from miss.prems(2) obtain st where st: "stageOf s t = Some st"
    by (auto simp: flight_window_def)
  then have lt: "t < length (tasks s)" by (rule stageOf_lt)
  have "k' \<noteq> k" if "connections s k = Some (entryFor t st)"
    using that miss.hyps(1) by (auto simp: lookupEntry_None)
  with miss.prems(2) st lt show ?case
    by (auto simp: flight_window_def keyOf_startAttempt stageOf_startAttempt)
next
  case (fail t' st' err)
  show ?case
  proof (cases "t' = t")
    case True
    with fail.prems(2) fail.hyps show ?thesis
      by (auto simp: flight_window_def stageOf_failTask)
  next
    case False
    from fail.prems(2) obtain st where st: "stageOf s t = Some st"
      by (auto simp: flight_window_def)
    have "keyOf s t' \<noteq> k" if "connections s k = Some (entryFor t st)"
      using flight_other_key [OF fail.prems(1) that fail.hyps False] by simp
    with st False fail.prems(2) fail.hyps show ?thesis
      by (auto simp: flight_window_def stageOf_failTask)
  qed
next
  case (dial t' usr base)
  show ?case
  proof (cases "t' = t")
    case True
    with dial.prems(2) dial.hyps show ?thesis
      by (auto simp: flight_window_def stageOf_setStage attempts_snoc dest: stageOf_lt)
  next
    case False
    from dial.prems(2) obtain st where st: "stageOf s t = Some st"
      by (auto simp: flight_window_def)
    have "keyOf s t' \<noteq> k" if "connections s k = Some (entryFor t st)"
      using flight_other_key [OF dial.prems(1) that dial.hyps _ False] by simp
    with st False dial.prems(2) dial.hyps show ?thesis
      by (auto simp: flight_window_def stageOf_setStage attempts_snoc)
  qed
next
  case (succeed t' st' h)
  show ?case
  proof (cases "t' = t")
    case True
    with succeed.prems(2) succeed.hyps show ?thesis
      by (cases st') (auto simp: flight_window_def stageOf_succeedTask)
  next
    case False
    from succeed.prems(2) obtain st where st: "stageOf s t = Some st"
      by (auto simp: flight_window_def)
    have "keyOf s t' \<noteq> k" if "connections s k = Some (entryFor t st)"
      using flight_other_key [OF succeed.prems(1) that succeed.hyps(1,2) False] by simp
    with st False succeed.prems(2) succeed.hyps show ?thesis
      by (auto simp: flight_window_def stageOf_succeedTask)
  qed
next
  case (register t' st' h m ms)
  show ?case
  proof (cases "t' = t")
    case True
    with register.prems(2) register.hyps show ?thesis
      by (cases st') (auto simp: flight_window_def stageOf_setStage attempts_register
          dest: stageOf_lt)
  next
    case False
    with register.prems(2) register.hyps show ?thesis
      by (auto simp: flight_window_def stageOf_setStage attempts_register)
  qed
qed

lemma flight_window_run:
  "reg_inv s \<Longrightarrow> flight_window s0 k t s \<Longrightarrow> flight_window s0 k t (run e s evs)"
proof (induction evs arbitrary: s)
  case Nil
  then show ?case by simp
next
  case (Cons ev evs)
  from Cons.prems have "inv_owner s" by (simp add: reg_inv_def)
  from Cons.IH [OF reg_inv_step [OF Cons.prems(1)] flight_window_step [OF this Cons.prems(2)]]
  show ?case by simp
qed

section \<open>How an attempt settles, and which calls a run records\<close>

lemma settle_step:
  assumes "stageOf s t = Some st" and "inflight st"
    and "stageOf (step e s ev) t = Some (Settled r)"
  shows "step e s ev = (case r of Inl err \<Rightarrow> failTask s t err | Inr h \<Rightarrow> succeedTask s t h)"
proof -
  have lt: "t < length (tasks s)" using assms(1) by (rule stageOf_lt)
  have "stageOf (step e s ev) t = Some (Settled r) \<longrightarrow>
        step e s ev = (case r of Inl err \<Rightarrow> failTask s t err | Inr h \<Rightarrow> succeedTask s t h)"
  proof (induction rule: step_cases [where e = e and s = s and ev = ev])
    case idle
    from assms(1,2) show ?case by auto
  next
    case (throw err)
    from assms(1,2) show ?case by auto
  next
    case (hit k x v)
    from assms(1,2) show ?case by auto
  next
    case (miss k v)
    from assms(1,2) lt show ?case by (auto simp: stageOf_startAttempt)
  next
    case (fail t' st' err)
    from assms(1,2) fail show ?case by (auto simp: stageOf_failTask)
  next
    case (dial t' usr base)
    from assms(1,2) dial show ?case by (auto simp: stageOf_setStage)
  next
    case (succeed t' st' h)
    from assms(1,2) succeed show ?case by (auto simp: stageOf_succeedTask)
  next
    case (register t' st' h m ms)
    from assms(1,2) register show ?case by (auto simp: stageOf_setStage)
  qed
  with assms(3) show ?thesis by simp
qed

lemma calls_schemaLoop [simp]: "calls (schemaLoop e s t h ms) = calls s"
  by (cases ms) (simp_all split: option.splits)

lemma calls_openConnection [simp]: "calls (openConnection e s t usr) = calls s"
  by (simp add: openConnection_def Let_def split: option.splits)

lemma call_keys_step:
  "map call_key (calls (step e s ev)) = map call_key (calls s) @ callKeys [ev]"
proof (cases ev)
  case (Call v)
  then show ?thesis
    by (cases "toString v"; cases "lookupEntry (connections s) (projr (toString v))")
      (simp_all add: getTenantConnection_def)
qed (simp_all split: option.splits stage.splits)

lemma callKeys_Cons: "callKeys (ev # evs) = callKeys [ev] @ callKeys evs"
  by (cases ev) simp_all

lemma call_keys_run:
  "map call_key (calls (run e s evs)) = map call_key (calls s) @ callKeys evs"
proof (induction evs arbitrary: s)
  case Nil
  then show ?case by simp
next
  case (Cons ev evs)
  show ?case
    using Cons.IH [of "step e s ev"] callKeys_Cons [of ev evs]
    by (simp add: call_keys_step)
qed

lemma call_keys_window:
  "map call_key (drop (length (calls s)) (calls (run e s evs))) = callKeys evs"
proof -
  have "map call_key (drop (length (calls s)) (calls (run e s evs)))
      = drop (length (map call_key (calls s))) (map call_key (calls (run e s evs)))"
    by (simp add: drop_map)
  also have "\<dots> = callKeys evs"
    unfolding call_keys_run by simp
  finally show ?thesis .
qed

section \<open>Single flight and reuse\<close>

lemma toLowerCase_Cow: "toLowerCase ''Cow'' = ''cow''"
  by code_simp

lemmas model_defs =
  run_def init_def getTenantConnection_def recordCall_def startAttempt_def lookupEntry_def
  objectPrototypeKeys_def stageOf_def keyOf_def setStage_def failTask_def succeedTask_def
  openConnection_def newConnection_def registerModel_def collectionName_def toLowerCase_Cow
  resolveDbName_def dbIdentifier_def normalizeName_def startsWith_def
  dbPrefix_def callResult_def attempts_def Let_def

text \<open>
  Claim C1. Let key \<open>k\<close> have no entry when a call for it starts, in any reachable state
  \<open>s\<close>. The call itself stores the promise of a new attempt \<open>t\<close> under \<open>k\<close>, before the
  profile lookup has completed and before any connection is made. Then, after any
  further events \<open>evs\<close>, with any number of further calls for \<open>k\<close> among them: while the
  attempt is in flight every call for \<open>k\<close> made so far holds the promise of \<open>t\<close> and the
  connector has been called at most once for \<open>k\<close>; once the attempt has succeeded with
  connection \<open>h\<close> the connector has been called exactly once for \<open>k\<close> and every call for
  \<open>k\<close> made so far has received \<open>h\<close>. The calls recorded are exactly the calls of the
  events.
\<close>

theorem single_flight:
  assumes "toString v = Inr k"
    and "s = run e init evs0"
    and "lookupEntry (connections s) k = None"
    and "t = length (tasks s)"
    and "s1 = step e s (Call v)"
    and "s' = run e s1 evs"
  shows "(connections s1 k = Some (VPromise t) \<and> stageOf s1 t = Some AwaitLookup \<and>
          conns s1 = conns s)
    \<and> (\<forall>st. stageOf s' t = Some st \<longrightarrow> inflight st \<longrightarrow>
          attempts s' k \<le> Suc (attempts s k) \<and>
          (\<forall>c. length (calls s) \<le> c \<longrightarrow> c < length (calls s') \<longrightarrow>
             call_key (calls s' ! c) = Inr k \<longrightarrow>
             call_ret (calls s' ! c) = Inr (VPromise t)))
    \<and> (\<forall>h. stageOf s' t = Some (Settled (Inr h)) \<longrightarrow>
          attempts s' k = Suc (attempts s k) \<and>
          (\<forall>c. length (calls s) \<le> c \<longrightarrow> c < length (calls s') \<longrightarrow>
             call_key (calls s' ! c) = Inr k \<longrightarrow>
             callResult s' c = Some (Inr (VConn h))))
    \<and> map call_key (drop (length (calls s)) (calls s')) = callKeys (Call v # evs)"
proof -
  have s1: "s1 = recordCall (startAttempt s k) (Inr k) (Inr (VPromise t))"
    using assms by (simp add: getTenantConnection_miss)
  have inv1: "reg_inv s1"
    unfolding assms(5) assms(2) by (rule reg_inv_step [OF reg_inv_reachable])
  have "flight_window s k t s1"
    unfolding s1 assms(4) by (rule flight_window_start [OF assms(3)])
  from flight_window_run [OF inv1 this] assms(6)
  have fw: "flight_window s k t s'" by simp
  have placeholder: "connections s1 k = Some (VPromise t) \<and> stageOf s1 t = Some AwaitLookup \<and>
      conns s1 = conns s"
    unfolding s1 by (simp add: stageOf_startAttempt assms(4))
  have flying: "attempts s' k \<le> Suc (attempts s k) \<and>
      (\<forall>c. length (calls s) \<le> c \<longrightarrow> c < length (calls s') \<longrightarrow>
         call_key (calls s' ! c) = Inr k \<longrightarrow> call_ret (calls s' ! c) = Inr (VPromise t))"
    if "stageOf s' t = Some st" "inflight st" for st
  proof -
    from fw that have a: "attempts s' k \<le> Suc (attempts s k)"
      and b: "\<forall>c \<in> set (drop (length (calls s)) (calls s')).
           call_key c = Inr k \<longrightarrow> call_ret c = Inr (VPromise t)"
      by (auto simp: flight_window_def entryFor_inflight)
    from b have "call_ret (calls s' ! c) = Inr (VPromise t)"
      if "length (calls s) \<le> c" "c < length (calls s')" "call_key (calls s' ! c) = Inr k" for c
      using nth_in_drop [OF that(1,2)] that(3) by blast
    with a show ?thesis by blast
  qed
  have landed: "attempts s' k = Suc (attempts s k) \<and>
      (\<forall>c. length (calls s) \<le> c \<longrightarrow> c < length (calls s') \<longrightarrow>
         call_key (calls s' ! c) = Inr k \<longrightarrow> callResult s' c = Some (Inr (VConn h)))"
    if st: "stageOf s' t = Some (Settled (Inr h))" for h
  proof -
    from fw st have a: "attempts s' k = Suc (attempts s k)"
      and b: "\<forall>c \<in> set (drop (length (calls s)) (calls s')).
           call_key c = Inr k \<longrightarrow>
           call_ret c = Inr (VPromise t) \<or> call_ret c = Inr (VConn h)"
      by (auto simp: flight_window_def)
    have "callResult s' c = Some (Inr (VConn h))"
      if c: "length (calls s) \<le> c" "c < length (calls s')" "call_key (calls s' ! c) = Inr k"
      for c
    proof -
      from b nth_in_drop [OF c(1,2)] c(3)
      have "call_ret (calls s' ! c) = Inr (VPromise t) \<or> call_ret (calls s' ! c) = Inr (VConn h)"
        by blast
      then show ?thesis
        using callResult_promise [OF c(2) _ st] callResult_conn [OF c(2)] by auto
    qed
    with a show ?thesis by blast
  qed
  have "s' = run e s (Call v # evs)"
    using assms(5,6) by simp
  then have keys: "map call_key (drop (length (calls s)) (calls s')) = callKeys (Call v # evs)"
    by (simp only: call_keys_window)
  from placeholder flying landed keys show ?thesis by blast
qed

theorem single_flight_witness:
  "call_ret (calls (run demoEnv init
       [Call (IdString ''u123''), Call (ObjectId ''u123''), LookupResolved 0 None]) ! 1)
     = Inr (VPromise 0)
   \<and> attempts (run demoEnv init raceRun) ''u123'' = 1
   \<and> callResult (run demoEnv init raceRun) 0 = Some (Inr (VConn 0))
   \<and> callResult (run demoEnv init raceRun) 1 = Some (Inr (VConn 0))
   \<and> callResult (run demoEnv init raceRun) 2 = Some (Inr (VConn 0))"
proof -
  define s1 where "s1 = step demoEnv init (Call (IdString ''u123''))"
  define m where "m = run demoEnv s1 [Call (ObjectId ''u123''), LookupResolved 0 None]"
  define s' where "s' = run demoEnv s1 (tl raceRun)"
  have eq: "run demoEnv init raceRun = s'"
    "run demoEnv init [Call (IdString ''u123''), Call (ObjectId ''u123''), LookupResolved 0 None]
       = m"
    by (simp_all add: raceRun_def s'_def m_def s1_def)
  have a: "toString (IdString ''u123'') = Inr ''u123''" by simp
  have b: "init = run demoEnv init []" by simp
  have c: "lookupEntry (connections init) ''u123'' = None"
    by (simp add: model_defs)
  have d: "(0::nat) = length (tasks init)" by (simp add: init_def)
  have flying: "stageOf m 0 = Some (AwaitConnect 0)" "inflight (AwaitConnect 0)"
    and m1: "length (calls init) \<le> 1" "1 < length (calls m)"
      "call_key (calls m ! 1) = Inr ''u123''"
    by (simp_all add: m_def s1_def demoEnv_def model_defs inflight_def)
  have settled: "stageOf s' 0 = Some (Settled (Inr 0))"
    and k0: "length (calls init) \<le> 0" "0 < length (calls s')"
      "call_key (calls s' ! 0) = Inr ''u123''"
    and k1: "length (calls init) \<le> 1" "1 < length (calls s')"
      "call_key (calls s' ! 1) = Inr ''u123''"
    and k2: "length (calls init) \<le> 2" "2 < length (calls s')"
      "call_key (calls s' ! 2) = Inr ''u123''"
    and none: "attempts init ''u123'' = 0"
    by (simp_all add: s'_def s1_def raceRun_def demoEnv_def model_defs)
  note early = single_flight [OF a b c d s1_def m_def]
  note held = early [THEN conjunct2, THEN conjunct1, rule_format, OF flying,
      THEN conjunct2, rule_format, OF m1]
  note late = single_flight [OF a b c d s1_def s'_def]
  note landed = late [THEN conjunct2, THEN conjunct2, THEN conjunct1, rule_format, OF settled]
  note got = landed [THEN conjunct2, rule_format]
  have once: "attempts s' ''u123'' = 1"
    using landed [THEN conjunct1] none by simp
  show ?thesis
    unfolding eq by (intro conjI held once got [OF k0] got [OF k1] got [OF k2])
qed

text \<open>
  Claim C6. When an attempt succeeds, its connection replaces its promise in the
  registry. From any reachable state in which key \<open>k\<close> holds connection \<open>h\<close>, after any
  further events: \<open>k\<close> still holds \<open>h\<close> (nothing evicts it), the connector has not been
  called for \<open>k\<close> again, and every call for \<open>k\<close> made since has received \<open>h\<close>.
\<close>

theorem acquire_idempotent:
  assumes "s = run e init evs0" and "s' = run e s evs"
  shows "(\<forall>t st h ev. stageOf s t = Some st \<longrightarrow> inflight st \<longrightarrow>
            stageOf (step e s ev) t = Some (Settled (Inr h)) \<longrightarrow>
            connections s (keyOf s t) = Some (VPromise t) \<and>
            connections (step e s ev) (keyOf s t) = Some (VConn h))
    \<and> (\<forall>k h. connections s k = Some (VConn h) \<longrightarrow>
          connections s' k = Some (VConn h) \<and> attempts s' k = attempts s k \<and>
          (\<forall>c. length (calls s) \<le> c \<longrightarrow> c < length (calls s') \<longrightarrow>
             call_key (calls s' ! c) = Inr k \<longrightarrow>
             callResult s' c = Some (Inr (VConn h))))"
proof -
  have inv: "reg_inv s"
    unfolding assms(1) by (rule reg_inv_reachable)
  then have own: "inv_owner s" by (simp add: reg_inv_def)
  have replaced: "connections s (keyOf s t) = Some (VPromise t) \<and>
      connections (step e s ev) (keyOf s t) = Some (VConn h)"
    if "stageOf s t = Some st" "inflight st" "stageOf (step e s ev) t = Some (Settled (Inr h))"
    for t st h ev
    using owner_entry [OF own that(1,2)] settle_step [OF that] by simp
  have kept: "connections s' k = Some (VConn h) \<and> attempts s' k = attempts s k \<and>
      (\<forall>c. length (calls s) \<le> c \<longrightarrow> c < length (calls s') \<longrightarrow>
         call_key (calls s' ! c) = Inr k \<longrightarrow> callResult s' c = Some (Inr (VConn h)))"
    if "connections s k = Some (VConn h)" for k h
  proof -
    from ready_window_run [OF inv ready_window_refl [OF that]] assms(2)
    have rw: "ready_window s k h s'" by simp
    then have b: "\<forall>c \<in> set (drop (length (calls s)) (calls s')).
        call_key c = Inr k \<longrightarrow> call_ret c = Inr (VConn h)"
      by (simp add: ready_window_def)
    have "callResult s' c = Some (Inr (VConn h))"
      if c: "length (calls s) \<le> c" "c < length (calls s')" "call_key (calls s' ! c) = Inr k"
      for c
      using b nth_in_drop [OF c(1,2)] c(3) callResult_conn [OF c(2)] by blast
    with rw show ?thesis
      by (simp add: ready_window_def)
  qed
  from replaced kept show ?thesis by blast
qed

theorem acquire_idempotent_witness:
  "connections (run demoEnv init (butlast raceRun)) ''u123'' = Some (VPromise 0)
   \<and> connections (run demoEnv init raceRun) ''u123'' = Some (VConn 0)
   \<and> connections (run demoEnv init (raceRun @ [Call (ObjectId ''u123'')])) ''u123''
       = Some (VConn 0)
   \<and> attempts (run demoEnv init (raceRun @ [Call (ObjectId ''u123'')])) ''u123'' = 1
   \<and> callResult (run demoEnv init (raceRun @ [Call (ObjectId ''u123'')])) 3
       = Some (Inr (VConn 0))"
proof -
  define p where "p = run demoEnv init (butlast raceRun)"
  define s where "s = run demoEnv init raceRun"
  define s' where "s' = run demoEnv s [Call (ObjectId ''u123'')]"
  have eq: "run demoEnv init (raceRun @ [Call (ObjectId ''u123'')]) = s'"
    by (simp only: run_append s'_def s_def)
  have step: "s = step demoEnv p (CollectionResolved 0)"
    by (simp add: s_def p_def raceRun_def)
  have a: "stageOf p 0 = Some (AwaitCollection 0 [])" "inflight (AwaitCollection 0 [])"
      "stageOf (step demoEnv p (CollectionResolved 0)) 0 = Some (Settled (Inr 0))"
    and key: "keyOf p 0 = ''u123''"
    by (simp_all add: p_def raceRun_def demoEnv_def model_defs inflight_def)
  have ready: "connections s ''u123'' = Some (VConn 0)"
    and n: "attempts s ''u123'' = 1"
    and c3: "length (calls s) \<le> 3" "3 < length (calls s')"
      "call_key (calls s' ! 3) = Inr ''u123''"
    by (simp_all add: s'_def s_def raceRun_def demoEnv_def model_defs)
  note before = acquire_idempotent [OF p_def refl, of "[]"]
  note replaced = before [THEN conjunct1, rule_format, OF a, unfolded key]
  note main = acquire_idempotent [OF s_def s'_def]
  note kept = main [THEN conjunct2, rule_format, OF ready]
  have once: "attempts s' ''u123'' = 1"
    using kept [THEN conjunct2, THEN conjunct1] n by simp
  show ?thesis
    unfolding eq s_def [symmetric] p_def [symmetric]
    by (intro conjI replaced [THEN conjunct1] ready kept [THEN conjunct1] once
        kept [THEN conjunct2, THEN conjunct2, rule_format, OF c3])
qed

section \<open>A failed attempt leaves nothing behind\<close>

lemma tasks_mono_step: "length (tasks s) \<le> length (tasks (step e s ev))"
  by (induction rule: step_cases [where e = e and s = s and ev = ev]) simp_all

lemma tasks_mono_run: "length (tasks s) \<le> length (tasks (run e s evs))"
proof (induction evs arbitrary: s)
  case Nil
  then show ?case by simp
next
  case (Cons ev evs)
  from tasks_mono_step [of s e ev] Cons.IH [of "step e s ev"] show ?case by simp
qed

lemma idle_step:
  assumes "inv_owner s" and "lookupEntry (connections s) k = None"
    and "Inr k \<notin> set (callKeys [ev])"
  shows "lookupEntry (connections (step e s ev)) k = None \<and>
         attempts (step e s ev) k = attempts s k"
proof -
  from assms(2) have none: "connections s k = None" and np: "k \<notin> set objectPrototypeKeys"
    by (simp_all add: lookupEntry_None)
  have other: "keyOf s t \<noteq> k" if "stageOf s t = Some st" "inflight st" for t st
    using owner_entry [OF assms(1) that] none by auto
  show ?thesis
  proof (induction rule: step_cases [where e = e and s = s and ev = ev])
    case idle
    from assms(2) show ?case by simp
  next
    case (throw err)
    from assms(2) show ?case by simp
  next
    case (hit k' x v)
    from assms(2) show ?case by simp
  next
    case (miss k' v)
    with assms(3) have "k' \<noteq> k" by auto
    with none np show ?case by (simp add: lookupEntry_None)
  next
    case (fail t st err)
    from none np show ?case by (simp add: lookupEntry_None)
  next
    case (dial t usr base)
    from other [OF dial] none np show ?case
      by (simp add: lookupEntry_None attempts_snoc)
  next
    case (succeed t st h)
    from other [OF succeed(1,2)] none np show ?case
      by (simp add: lookupEntry_None)
  next
    case (register t st h m ms)
    from none np show ?case
      by (simp add: lookupEntry_None attempts_register)
  qed
qed

lemma idle_run:
  "reg_inv s \<Longrightarrow> lookupEntry (connections s) k = None \<Longrightarrow> Inr k \<notin> set (callKeys evs) \<Longrightarrow>
   lookupEntry (connections (run e s evs)) k = None \<and> attempts (run e s evs) k = attempts s k"
proof (induction evs arbitrary: s)
  case Nil
  then show ?case by simp
next
  case (Cons ev evs)
  from Cons.prems(3) callKeys_Cons [of ev evs]
  have here: "Inr k \<notin> set (callKeys [ev])" and later: "Inr k \<notin> set (callKeys evs)"
    by auto
  from Cons.prems(1) have "inv_owner s" by (simp add: reg_inv_def)
  from idle_step [OF this Cons.prems(2) here]
  have a: "lookupEntry (connections (step e s ev)) k = None"
    and b: "attempts (step e s ev) k = attempts s k"
    by simp_all
  from Cons.IH [OF reg_inv_step [OF Cons.prems(1)] a later] b show ?case by simp
qed

lemma retry_dials:
  assumes "lookupEntry (connections s) k = None" and "toString v = Inr k"
    and "mongoUri e = Some base"
  shows "attempts (step e (step e s (Call v)) (LookupResolved (length (tasks s)) usr)) k
           = Suc (attempts s k)"
  using assms
  by (simp add: getTenantConnection_miss stageOf_startAttempt openConnection_ok
      keyOf_startAttempt attempts_def)

text \<open>
  What follows once an attempt in flight has settled as rejected, whichever event did
  it.
\<close>

lemma failure_consequences:
  assumes "s = run e init evs0"
    and "stageOf s t = Some st" and "inflight st"
    and "k = keyOf s t" and "s1 = step e s ev"
    and "stageOf s1 t = Some (Settled (Inl err))"
  shows "connections s k = Some (VPromise t) \<and> lookupEntry (connections s1) k = None
    \<and> (\<forall>c. c < length (calls s1) \<longrightarrow> call_ret (calls s1 ! c) = Inr (VPromise t) \<longrightarrow>
          callResult s1 c = Some (Inl err))
    \<and> (\<forall>evs v s2 s3 t'. Inr k \<notin> set (callKeys evs) \<longrightarrow> toString v = Inr k \<longrightarrow>
          s2 = run e s1 evs \<longrightarrow> t' = length (tasks s2) \<longrightarrow> s3 = step e s2 (Call v) \<longrightarrow>
          lookupEntry (connections s2) k = None \<and> attempts s2 k = attempts s k \<and>
          t' \<noteq> t \<and> connections s3 k = Some (VPromise t') \<and>
          stageOf s3 t' = Some AwaitLookup \<and>
          call_ret (calls s3 ! length (calls s2)) = Inr (VPromise t') \<and>
          (\<forall>usr base. mongoUri e = Some base \<longrightarrow>
             attempts (step e s3 (LookupResolved t' usr)) k = Suc (attempts s k)))"
proof -
  have inv: "reg_inv s"
    unfolding assms(1) by (rule reg_inv_reachable)
  then have own: "inv_owner s" and proto: "inv_proto s"
    by (simp_all add: reg_inv_def)
  have inv1: "reg_inv s1"
    unfolding assms(5) by (rule reg_inv_step [OF inv])
  have held: "connections s k = Some (VPromise t)"
    unfolding assms(4) by (rule owner_entry [OF own assms(2,3)])
  with proto have np: "k \<notin> set objectPrototypeKeys"
    by (auto simp: inv_proto_def)
  have s1: "s1 = failTask s t err"
    using settle_step [OF assms(2,3), of e ev "Inl err"] assms(5,6) by simp
  have gone: "lookupEntry (connections s1) k = None"
    unfolding s1 using np assms(4) by (simp add: lookupEntry_None)
  have kept: "attempts s1 k = attempts s k"
    unfolding s1 by simp
  have rejected: "callResult s1 c = Some (Inl err)"
    if "c < length (calls s1)" "call_ret (calls s1 ! c) = Inr (VPromise t)" for c
    using callResult_promise [OF that assms(6)] by simp
  have lt: "t < length (tasks s1)"
    using assms(6) by (rule stageOf_lt)
  have retry: "lookupEntry (connections s2) k = None \<and> attempts s2 k = attempts s k \<and>
      t' \<noteq> t \<and> connections s3 k = Some (VPromise t') \<and>
      stageOf s3 t' = Some AwaitLookup \<and>
      call_ret (calls s3 ! length (calls s2)) = Inr (VPromise t') \<and>
      (\<forall>usr base. mongoUri e = Some base \<longrightarrow>
         attempts (step e s3 (LookupResolved t' usr)) k = Suc (attempts s k))"
    if h: "Inr k \<notin> set (callKeys evs)" "toString v = Inr k" "s2 = run e s1 evs"
      "t' = length (tasks s2)" "s3 = step e s2 (Call v)"
    for evs v s2 s3 t'
  proof -
    from idle_run [OF inv1 gone h(1), of e] kept h(3)
    have idle: "lookupEntry (connections s2) k = None" and same: "attempts s2 k = attempts s k"
      by simp_all
    from tasks_mono_run [of s1 e evs] lt h(3,4) have ne: "t' \<noteq> t" by simp
    have s3: "s3 = recordCall (startAttempt s2 k) (Inr k) (Inr (VPromise t'))"
      unfolding h(5) h(4) using getTenantConnection_miss [OF h(2) idle] by simp
    have again: "attempts (step e s3 (LookupResolved t' usr)) k = Suc (attempts s k)"
      if "mongoUri e = Some base" for usr base
      using retry_dials [OF idle h(2) that, of usr] same h(4,5) by simp
    from idle same ne again show ?thesis
      unfolding s3 by (simp add: stageOf_startAttempt h(4))
  qed
  show ?thesis
    apply (intro conjI)
       apply (rule held)
      apply (rule gone)
     apply (intro allI impI, erule (1) rejected)
    apply (intro allI impI, rule retry, assumption+)
    done
qed

lemma callResult_pending:
  "c < length (calls s) \<Longrightarrow> call_ret (calls s ! c) = Inr (VPromise t) \<Longrightarrow>
   stageOf s t = Some st \<Longrightarrow> inflight st \<Longrightarrow> callResult s c = None"
  by (cases st) (simp_all add: callResult_def)

text \<open>
  The events that make the unit of work throw while attempt \<open>t\<close> waits: each of them
  settles the attempt as rejected with the error thrown.
\<close>

lemma failure_events:
  assumes "(stageOf s t = Some AwaitLookup \<and> ev = LookupRejected t err)
     \<or> (stageOf s t = Some AwaitLookup \<and> ev = LookupResolved t usr \<and> mongoUri e = None \<and>
          err = TypeError)
     \<or> (stageOf s t = Some (AwaitConnect h) \<and> ev = ConnectRejected t err)
     \<or> (stageOf s t = Some (AwaitConnect h) \<and> ev = ConnectResolved t \<and>
          schemaNames e = m # ms \<and> modelThrows e m = Some err)
     \<or> (stageOf s t = Some (AwaitCollection h (m # ms)) \<and>
          (ev = CollectionResolved t \<or> ev = CollectionRejected t err') \<and>
          modelThrows e m = Some err)"
  shows "\<exists>st. stageOf s t = Some st \<and> inflight st \<and>
           stageOf (step e s ev) t = Some (Settled (Inl err))"
  using assms
  by (elim disjE conjE) (simp_all add: openConnection_bad_uri stageOf_failTask)

text \<open>Conversely, no other event makes an attempt in flight settle as rejected.\<close>

lemma failure_is_event:
  assumes "stageOf s t = Some st" and "inflight st"
    and "stageOf (step e s ev) t = Some (Settled (Inl err))"
  shows "(st = AwaitLookup \<and> ev = LookupRejected t err)
     \<or> (st = AwaitLookup \<and> (\<exists>usr. ev = LookupResolved t usr) \<and> mongoUri e = None \<and>
          err = TypeError)
     \<or> (\<exists>h. st = AwaitConnect h \<and> ev = ConnectRejected t err)
     \<or> (\<exists>h m ms. st = AwaitConnect h \<and> ev = ConnectResolved t \<and>
          schemaNames e = m # ms \<and> modelThrows e m = Some err)
     \<or> (\<exists>h m ms. st = AwaitCollection h (m # ms) \<and>
          (ev = CollectionResolved t \<or> (\<exists>err'. ev = CollectionRejected t err')) \<and>
          modelThrows e m = Some err)"
proof -
  have lt: "t < length (tasks s)" using assms(1) by (rule stageOf_lt)
  have idle: False if "step e s ev = s"
    using that assms by (cases st) simp_all
  have loop: "\<exists>m ms'. ms = m # ms' \<and> modelThrows e m = Some err \<and> t' = t"
    if "stageOf s t' = Some st'" "inflight st'"
      "stageOf (schemaLoop e s t' h ms) t = Some (Settled (Inl err))" for t' h ms st'
    using that assms(1,2)
    by (cases ms; cases st)
      (auto simp: stageOf_succeedTask stageOf_failTask stageOf_setStage
        split: option.splits if_splits)
  show ?thesis
  proof (cases ev)
    case (Call v)
    with assms lt show ?thesis
      by (cases "toString v"; cases "lookupEntry (connections s) (projr (toString v))")
        (auto simp: getTenantConnection_def stageOf_startAttempt)
  next
    case (LookupResolved t' usr)
    with assms show ?thesis
      by (cases "mongoUri e")
        (auto simp: openConnection_bad_uri openConnection_ok stageOf_failTask stageOf_setStage
          split: option.splits stage.splits if_splits)
  next
    case (LookupRejected t' err')
    with assms show ?thesis
      by (auto simp: stageOf_failTask split: option.splits stage.splits if_splits)
  next
    case (ConnectResolved t')
    show ?thesis
    proof (cases "\<exists>h. stageOf s t' = Some (AwaitConnect h)")
      case True
      then obtain h where h: "stageOf s t' = Some (AwaitConnect h)" by blast
      with ConnectResolved assms(3)
      have "stageOf (schemaLoop e s t' h (schemaNames e)) t = Some (Settled (Inl err))"
        by simp
      from loop [OF h _ this] obtain m ms' where
        "schemaNames e = m # ms'" "modelThrows e m = Some err" "t' = t"
        by auto
      with h assms(1) ConnectResolved show ?thesis by auto
    next
      case False
      with ConnectResolved have "step e s ev = s"
        by (auto split: option.splits stage.splits)
      from idle [OF this] show ?thesis ..
    qed
  next
    case (ConnectRejected t' err')
    with assms show ?thesis
      by (auto simp: stageOf_failTask split: option.splits stage.splits if_splits)
  next
    case (CollectionResolved t')
    show ?thesis
    proof (cases "\<exists>h ms. stageOf s t' = Some (AwaitCollection h ms)")
      case True
      then obtain h ms where h: "stageOf s t' = Some (AwaitCollection h ms)" by blast
      with CollectionResolved assms(3)
      have "stageOf (schemaLoop e s t' h ms) t = Some (Settled (Inl err))"
        by simp
      from loop [OF h _ this] obtain m ms' where
        "ms = m # ms'" "modelThrows e m = Some err" "t' = t"
        by auto
      with h assms(1) CollectionResolved show ?thesis by auto
    next
      case False
      with CollectionResolved have "step e s ev = s"
        by (auto split: option.splits stage.splits)
      from idle [OF this] show ?thesis ..
    qed
  next
    case (CollectionRejected t' err')
    show ?thesis
    proof (cases "\<exists>h ms. stageOf s t' = Some (AwaitCollection h ms)")
      case True
      then obtain h ms where h: "stageOf s t' = Some (AwaitCollection h ms)" by blast
      with CollectionRejected assms(3)
      have "stageOf (schemaLoop e s t' h ms) t = Some (Settled (Inl err))"
        by simp
      from loop [OF h _ this] obtain m ms' where
        "ms = m # ms'" "modelThrows e m = Some err" "t' = t"
        by auto
      with h assms(1) CollectionRejected show ?thesis by auto
    next
      case False
      with CollectionRejected have "step e s ev = s"
        by (auto split: option.splits stage.splits)
      from idle [OF this] show ?thesis ..
    qed
  qed
qed

text \<open>
  Claim C3. Let an attempt \<open>t\<close> for key \<open>k\<close> wait in a reachable state, and let the next
  event be one that makes its unit of work throw \<open>err\<close>: the profile lookup is
  rejected; the lookup resolves but \<^verbatim>\<open>new URL\<close> rejects \<^verbatim>\<open>MONGO_URI\<close>; the connection
  handshake is rejected; or the handshake or a collection creation completes and the
  registration of the next schema throws. Then the attempt settles as rejected with
  \<open>err\<close>; the registry, which held the promise of \<open>t\<close> under \<open>k\<close>, yields undefined for
  \<open>k\<close>; every call that holds the promise of \<open>t\<close>, pending until then, is rejected with
  \<open>err\<close>; and after any further events without a call for \<open>k\<close> the registry still yields
  undefined for \<open>k\<close> and no connection has been made for \<open>k\<close>, so the next call for \<open>k\<close>
  starts a new attempt, other than \<open>t\<close>, and waits for it, and that attempt calls the
  connector once more when its profile lookup resolves.
\<close>

theorem failure_clears_entry:
  assumes "s = run e init evs0" and "k = keyOf s t" and "s1 = step e s ev"
    and "(stageOf s t = Some AwaitLookup \<and> ev = LookupRejected t err)
     \<or> (stageOf s t = Some AwaitLookup \<and> ev = LookupResolved t usr \<and> mongoUri e = None \<and>
          err = TypeError)
     \<or> (stageOf s t = Some (AwaitConnect h) \<and> ev = ConnectRejected t err)
     \<or> (stageOf s t = Some (AwaitConnect h) \<and> ev = ConnectResolved t \<and>
          schemaNames e = m # ms \<and> modelThrows e m = Some err)
     \<or> (stageOf s t = Some (AwaitCollection h (m # ms)) \<and>
          (ev = CollectionResolved t \<or> ev = CollectionRejected t err') \<and>
          modelThrows e m = Some err)"
  shows "stageOf s1 t = Some (Settled (Inl err))
    \<and> connections s k = Some (VPromise t) \<and> lookupEntry (connections s1) k = None
    \<and> (\<forall>c. c < length (calls s) \<longrightarrow> call_ret (calls s ! c) = Inr (VPromise t) \<longrightarrow>
          callResult s c = None \<and> callResult s1 c = Some (Inl err))
    \<and> (\<forall>evs v s2 s3 t'. Inr k \<notin> set (callKeys evs) \<longrightarrow> toString v = Inr k \<longrightarrow>
          s2 = run e s1 evs \<longrightarrow> t' = length (tasks s2) \<longrightarrow> s3 = step e s2 (Call v) \<longrightarrow>
          lookupEntry (connections s2) k = None \<and> attempts s2 k = attempts s k \<and>
          t' \<noteq> t \<and> connections s3 k = Some (VPromise t') \<and>
          stageOf s3 t' = Some AwaitLookup \<and>
          call_ret (calls s3 ! length (calls s2)) = Inr (VPromise t') \<and>
          (\<forall>usr base. mongoUri e = Some base \<longrightarrow>
             attempts (step e s3 (LookupResolved t' usr)) k = Suc (attempts s k)))"
proof -
  from failure_events [OF assms(4)] assms(3)
  obtain st where st: "stageOf s t = Some st" "inflight st"
    and settled: "stageOf s1 t = Some (Settled (Inl err))"
    by blast
  note cons = failure_consequences [OF assms(1) st assms(2,3) settled]
  have same: "s1 = failTask s t err"
    using settle_step [OF st, of e ev "Inl err"] assms(3) settled by simp
  have waiters: "callResult s c = None \<and> callResult s1 c = Some (Inl err)"
    if c: "c < length (calls s)" "call_ret (calls s ! c) = Inr (VPromise t)" for c
  proof -
    from c have "c < length (calls s1)" "call_ret (calls s1 ! c) = Inr (VPromise t)"
      unfolding same by simp_all
    from cons [THEN conjunct2, THEN conjunct2, THEN conjunct1, rule_format, OF this]
      callResult_pending [OF c st]
    show ?thesis by simp
  qed
  show ?thesis
    apply (intro conjI)
        apply (rule settled)
       apply (rule cons [THEN conjunct1])
      apply (rule cons [THEN conjunct2, THEN conjunct1])
     apply (intro allI impI, erule (1) waiters)
    apply (rule cons [THEN conjunct2, THEN conjunct2, THEN conjunct2])
    done
qed

theorem failure_clears_entry_witness:
  "stageOf (run demoEnv init (failRun @ [ConnectRejected 0 (DriverError ''timeout'')])) 0
     = Some (Settled (Inl (DriverError ''timeout'')))
   \<and> callResult (run demoEnv init (failRun @ [ConnectRejected 0 (DriverError ''timeout'')])) 0
     = Some (Inl (DriverError ''timeout''))
   \<and> callResult (run demoEnv init (failRun @ [ConnectRejected 0 (DriverError ''timeout'')])) 1
     = Some (Inl (DriverError ''timeout''))
   \<and> lookupEntry
       (connections (run demoEnv init (failRun @ [ConnectRejected 0 (DriverError ''timeout'')])))
       ''u9'' = None
   \<and> attempts
       (run demoEnv init
          (failRun @ [ConnectRejected 0 (DriverError ''timeout''), Call (IdString ''u9''),
             LookupResolved 1 None])) ''u9'' = 2
   \<and> callResult
       (run demoEnv init [Call (IdString ''u9''), LookupRejected 0 (DriverError ''down'')]) 0
     = Some (Inl (DriverError ''down''))"
proof -
  define ev where "ev = ConnectRejected 0 (DriverError ''timeout'')"
  define s where "s = run demoEnv init failRun"
  define s1 where "s1 = step demoEnv s ev"
  define s2 where "s2 = run demoEnv s1 []"
  define s3 where "s3 = step demoEnv s2 (Call (IdString ''u9''))"
  define p where "p = run demoEnv init [Call (IdString ''u9'')]"
  define p1 where "p1 = step demoEnv p (LookupRejected 0 (DriverError ''down''))"
  have eq1: "run demoEnv init (failRun @ [ConnectRejected 0 (DriverError ''timeout'')]) = s1"
    by (simp only: run_snoc s1_def s_def ev_def)
  have eq2: "run demoEnv init
       (failRun @ [ConnectRejected 0 (DriverError ''timeout''), Call (IdString ''u9''),
          LookupResolved 1 None])
      = step demoEnv s3 (LookupResolved 1 None)"
    by (simp add: run_append s3_def s2_def s1_def s_def ev_def)
  have eq3: "run demoEnv init [Call (IdString ''u9''), LookupRejected 0 (DriverError ''down'')]
      = p1"
    by (simp add: p1_def p_def)
  have a: "stageOf s 0 = Some (AwaitConnect 0)" and c: "''u9'' = keyOf s 0"
    and c0: "0 < length (calls s)" "call_ret (calls s ! 0) = Inr (VPromise 0)"
    and c1: "1 < length (calls s)" "call_ret (calls s ! 1) = Inr (VPromise 0)"
    and n: "attempts s ''u9'' = 1"
    by (simp_all add: s_def failRun_def demoEnv_def model_defs)
  have t': "1 = length (tasks s2)"
    and uri: "mongoUri demoEnv = Some ''mongodb://localhost:27017''"
    by (simp_all add: s2_def s1_def s_def ev_def failRun_def demoEnv_def model_defs)
  have pa: "stageOf p 0 = Some AwaitLookup" and pc: "''u9'' = keyOf p 0"
    and p0: "0 < length (calls p)" "call_ret (calls p ! 0) = Inr (VPromise 0)"
    by (simp_all add: p_def demoEnv_def model_defs)
  have handshake:
    "(stageOf s 0 = Some AwaitLookup \<and> ev = LookupRejected 0 (DriverError ''timeout''))
     \<or> (stageOf s 0 = Some AwaitLookup \<and> ev = LookupResolved 0 None \<and> mongoUri demoEnv = None \<and>
          DriverError ''timeout'' = TypeError)
     \<or> (stageOf s 0 = Some (AwaitConnect 0) \<and> ev = ConnectRejected 0 (DriverError ''timeout''))
     \<or> (stageOf s 0 = Some (AwaitConnect 0) \<and> ev = ConnectResolved 0 \<and>
          schemaNames demoEnv = ''Cow'' # [] \<and>
          modelThrows demoEnv ''Cow'' = Some (DriverError ''timeout''))
     \<or> (stageOf s 0 = Some (AwaitCollection 0 (''Cow'' # [])) \<and>
          (ev = CollectionResolved 0 \<or> ev = CollectionRejected 0 TypeError) \<and>
          modelThrows demoEnv ''Cow'' = Some (DriverError ''timeout''))"
    using a by (simp add: ev_def)
  have lookup:
    "(stageOf p 0 = Some AwaitLookup \<and>
        LookupRejected 0 (DriverError ''down'') = LookupRejected 0 (DriverError ''down''))
     \<or> (stageOf p 0 = Some AwaitLookup \<and>
          LookupRejected 0 (DriverError ''down'') = LookupResolved 0 None \<and>
          mongoUri demoEnv = None \<and> DriverError ''down'' = TypeError)
     \<or> (stageOf p 0 = Some (AwaitConnect 0) \<and>
          LookupRejected 0 (DriverError ''down'') = ConnectRejected 0 (DriverError ''down''))
     \<or> (stageOf p 0 = Some (AwaitConnect 0) \<and>
          LookupRejected 0 (DriverError ''down'') = ConnectResolved 0 \<and>
          schemaNames demoEnv = ''Cow'' # [] \<and>
          modelThrows demoEnv ''Cow'' = Some (DriverError ''down''))
     \<or> (stageOf p 0 = Some (AwaitCollection 0 (''Cow'' # [])) \<and>
          (LookupRejected 0 (DriverError ''down'') = CollectionResolved 0 \<or>
           LookupRejected 0 (DriverError ''down'') = CollectionRejected 0 TypeError) \<and>
          modelThrows demoEnv ''Cow'' = Some (DriverError ''down''))"
    using pa by simp
  have h1: "Inr ''u9'' \<notin> set (callKeys [])" by simp
  have h2: "toString (IdString ''u9'') = Inr ''u9''" by simp
  note main = failure_clears_entry [OF s_def c s1_def handshake]
  note settled = main [THEN conjunct1]
  note gone = main [THEN conjunct2, THEN conjunct2, THEN conjunct1]
  note rejected = main [THEN conjunct2, THEN conjunct2, THEN conjunct2, THEN conjunct1,
      rule_format, THEN conjunct2]
  note retry = main [THEN conjunct2, THEN conjunct2, THEN conjunct2, THEN conjunct2,
      rule_format, OF h1 h2 s2_def t' s3_def]
  note dial = retry [THEN conjunct2, THEN conjunct2, THEN conjunct2, THEN conjunct2,
      THEN conjunct2, THEN conjunct2, rule_format, OF uri]
  note other = failure_clears_entry [OF p_def pc p1_def lookup]
  note refused = other [THEN conjunct2, THEN conjunct2, THEN conjunct2, THEN conjunct1,
      rule_format, THEN conjunct2]
  have again: "attempts (step demoEnv s3 (LookupResolved 1 None)) ''u9'' = 2"
    using dial [of None] n by simp
  show ?thesis
    unfolding eq1 eq2 eq3
    by (intro conjI settled rejected [OF c0] rejected [OF c1] gone again refused [OF p0])
qed

section \<open>The name an attempt connects to\<close>

lemma lookup_resolved_dials:
  assumes "stageOf s t = Some AwaitLookup" and "mongoUri e = Some base"
  shows "step e s (LookupResolved t usr) =
     setStage
       (s\<lparr>conns := conns s @
          [newConnection (keyOf s t) base (resolveDbName usr (keyOf s t))]\<rparr>) t
       (AwaitConnect (length (conns s)))"
  using assms by (simp add: openConnection_ok)

text \<open>
  Claim C8. The database name an attempt connects to is a function of the id string
  and of the profile the lookup returned, and of nothing else: two attempts for the same
  id string that are given the same profile connect to the same name, whatever the two
  states of the registry and the two environments are.
\<close>

theorem resolution_deterministic:
  assumes "stageOf s1 t1 = Some AwaitLookup" and "stageOf s2 t2 = Some AwaitLookup"
    and "keyOf s1 t1 = keyOf s2 t2"
    and "mongoUri e1 = Some b1" and "mongoUri e2 = Some b2"
  shows "conn_db (last (conns (step e1 s1 (LookupResolved t1 usr))))
           = conn_db (last (conns (step e2 s2 (LookupResolved t2 usr))))
    \<and> conn_db (last (conns (step e1 s1 (LookupResolved t1 usr))))
           = resolveDbName usr (keyOf s1 t1)"
  using assms
  by (simp add: lookup_resolved_dials [OF assms(1,4)] lookup_resolved_dials [OF assms(2,5)]
      del: step.simps)

theorem resolution_deterministic_witness:
  "conn_db (last (conns (run demoEnv init
       [Call (IdString ''u1''), LookupResolved 0 (Some \<lparr>tenantDbName = Some ''farm7''\<rparr>)])))
     = conn_db (last (conns (run (demoEnv\<lparr>mongoUri := Some ''mongodb://db2''\<rparr>) init
         [Call (IdString ''u5''), Call (ObjectId ''u1''), LookupResolved 0 None,
          LookupResolved 1 (Some \<lparr>tenantDbName = Some ''farm7''\<rparr>)])))
   \<and> conn_db (last (conns (run demoEnv init
         [Call (IdString ''u1''), LookupResolved 0 (Some \<lparr>tenantDbName = Some ''farm7''\<rparr>)])))
     = ''AI_FARM_user_farm7''"
proof -
  define e2 where "e2 = demoEnv\<lparr>mongoUri := Some ''mongodb://db2''\<rparr>"
  define s1 where "s1 = run demoEnv init [Call (IdString ''u1'')]"
  define s2 where
    "s2 = run e2 init [Call (IdString ''u5''), Call (ObjectId ''u1''), LookupResolved 0 None]"
  define usr where "usr = Some \<lparr>tenantDbName = Some ''farm7''\<rparr>"
  have a: "stageOf s1 0 = Some AwaitLookup" and b: "stageOf s2 1 = Some AwaitLookup"
    and c: "keyOf s1 0 = keyOf s2 1"
    and d: "mongoUri demoEnv = Some ''mongodb://localhost:27017''"
    and e: "mongoUri e2 = Some ''mongodb://db2''"
    and k: "resolveDbName usr (keyOf s1 0) = ''AI_FARM_user_farm7''"
    by (simp_all add: s1_def s2_def e2_def usr_def demoEnv_def model_defs)
  have eq1: "run demoEnv init [Call (IdString ''u1''), LookupResolved 0 usr]
      = step demoEnv s1 (LookupResolved 0 usr)"
    by (simp add: s1_def)
  have eq2: "run e2 init [Call (IdString ''u5''), Call (ObjectId ''u1''), LookupResolved 0 None,
        LookupResolved 1 usr] = step e2 s2 (LookupResolved 1 usr)"
    by (simp add: s2_def)
  from resolution_deterministic [OF a b c d e, of usr] k show ?thesis
    unfolding eq1 [unfolded usr_def] eq2 [unfolded usr_def e2_def] usr_def e2_def
    by (auto simp del: step.simps)
qed

text \<open>
  Claim C9. When the profile lookup yields no document the name is the prefix followed
  by the id string; the attempt goes on exactly as it does for a profile without a
  \<^verbatim>\<open>tenantDbName\<close>; it does not fail unless it would fail for every profile (which is
  the case of a \<^verbatim>\<open>MONGO_URI\<close> that \<^verbatim>\<open>new URL\<close> rejects, two lines further down); and with
  a valid URI it calls the connector for the derived name and waits for the handshake.
\<close>

theorem missing_profile_falls_back:
  "resolveDbName None idStr = dbPrefix @ idStr
   \<and> (tenantDbName u = None \<longrightarrow>
        step e s (LookupResolved t None) = step e s (LookupResolved t (Some u)))
   \<and> (\<forall>usr err. stageOf (step e s (LookupResolved t None)) t = Some (Settled (Inl err)) \<longrightarrow>
          stageOf (step e s (LookupResolved t usr)) t = Some (Settled (Inl err)))
   \<and> (stageOf s t = Some AwaitLookup \<longrightarrow> mongoUri e = Some base \<longrightarrow>
        step e s (LookupResolved t None) =
          setStage
            (s\<lparr>conns := conns s @ [newConnection (keyOf s t) base (dbPrefix @ keyOf s t)]\<rparr>)
            t (AwaitConnect (length (conns s))))"
proof -
  have same: "step e s (LookupResolved t None) = step e s (LookupResolved t (Some u))"
    if "tenantDbName u = None"
    using that
    by (simp add: openConnection_def resolveDbName_unnamed split: option.splits stage.splits)
  have nofail: "stageOf (step e s (LookupResolved t usr)) t = Some (Settled (Inl err))"
    if f: "stageOf (step e s (LookupResolved t None)) t = Some (Settled (Inl err))" for usr err
  proof (cases "stageOf s t = Some AwaitLookup")
    case True
    show ?thesis
    proof (cases "mongoUri e")
      case None
      with f True show ?thesis by (simp add: openConnection_bad_uri)
    next
      case (Some base)
      with f True show ?thesis
        by (simp add: lookup_resolved_dials stageOf_setStage del: step.simps split: if_splits)
    qed
  next
    case False
    with f show ?thesis
      by (auto split: option.splits stage.splits)
  qed
  have dial: "step e s (LookupResolved t None) =
      setStage
        (s\<lparr>conns := conns s @ [newConnection (keyOf s t) base (dbPrefix @ keyOf s t)]\<rparr>)
        t (AwaitConnect (length (conns s)))"
    if "stageOf s t = Some AwaitLookup" "mongoUri e = Some base"
    using lookup_resolved_dials [OF that, of None] by simp
  show ?thesis
    apply (intro conjI)
       apply (rule resolveDbName_None)
      apply (intro impI, erule same)
     apply (intro allI impI, erule nofail)
    apply (intro impI, erule (1) dial)
    done
qed

theorem missing_profile_falls_back_witness:
  "stageOf (run demoEnv init [Call (IdString ''u123''), LookupResolved 0 None]) 0
     = Some (AwaitConnect 0)
   \<and> map conn_db (conns (run demoEnv init [Call (IdString ''u123''), LookupResolved 0 None]))
     = [''AI_FARM_user_u123'']
   \<and> run demoEnv init [Call (IdString ''u123''), LookupResolved 0 None]
     = run demoEnv init
         [Call (IdString ''u123''), LookupResolved 0 (Some \<lparr>tenantDbName = None\<rparr>)]
   \<and> stageOf
       (run (demoEnv\<lparr>mongoUri := None\<rparr>) init
          [Call (IdString ''u123''),
           LookupResolved 0 (Some \<lparr>tenantDbName = Some ''farm7''\<rparr>)]) 0
     = Some (Settled (Inl TypeError))"
proof -
  define s where "s = step demoEnv init (Call (IdString ''u123''))"
  define bad where "bad = demoEnv\<lparr>mongoUri := None\<rparr>"
  define named where "named = Some \<lparr>tenantDbName = Some ''farm7''\<rparr>"
  have a: "stageOf s 0 = Some AwaitLookup"
    and b: "mongoUri demoEnv = Some ''mongodb://localhost:27017''"
    and c: "tenantDbName \<lparr>tenantDbName = None\<rparr> = None"
    and facts: "keyOf s 0 = ''u123''" "conns s = []" "length (tasks s) = 1"
    and f: "stageOf (step bad s (LookupResolved 0 None)) 0 = Some (Settled (Inl TypeError))"
    by (simp_all add: s_def bad_def demoEnv_def model_defs)
  note main = missing_profile_falls_back
      [of "''u123''" "\<lparr>tenantDbName = None\<rparr>" demoEnv s 0 "''mongodb://localhost:27017''"]
  note same = main [THEN conjunct2, THEN conjunct1, rule_format, OF c]
  note dial = main [THEN conjunct2, THEN conjunct2, THEN conjunct2, rule_format, OF a b]
  note nofail = missing_profile_falls_back
      [of "''u123''" "\<lparr>tenantDbName = None\<rparr>" bad s 0 "''mongodb://localhost:27017''",
        THEN conjunct2, THEN conjunct2, THEN conjunct1, rule_format, OF f, of named]
  have eq: "run demoEnv init [Call (IdString ''u123''), LookupResolved 0 usr]
      = step demoEnv s (LookupResolved 0 usr)" for usr
    by (simp add: s_def)
  have eq': "run bad init [Call (IdString ''u123''), LookupResolved 0 named]
      = step bad s (LookupResolved 0 named)"
    by (simp add: s_def)
  have "stageOf (step demoEnv s (LookupResolved 0 None)) 0 = Some (AwaitConnect 0)"
    and "map conn_db (conns (step demoEnv s (LookupResolved 0 None))) = [''AI_FARM_user_u123'']"
    unfolding dial by (simp_all add: stageOf_setStage facts dbPrefix_def)
  with same nofail show ?thesis
    unfolding eq eq' [unfolded bad_def named_def] bad_def named_def by (intro conjI)
qed

section \<open>The key is the string form of the argument\<close>

lemma call_coerced:
  "toString v = Inr k \<Longrightarrow> step e s (Call v) = step e s (Call (IdString k))"
  by (simp add: getTenantConnection_def)

lemma step_coerce: "step e s (coerce ev) = step e s ev"
proof (cases ev)
  case (Call v)
  then show ?thesis
    by (cases "toString v") (simp_all add: getTenantConnection_def)
qed simp_all

lemma run_coerce: "run e s (map coerce evs) = run e s evs"
  by (induction evs arbitrary: s) (simp_all add: step_coerce del: step.simps coerce.simps)

text \<open>
  Claim C10. A call with a value \<open>v\<close> and a call with the string \<open>v.toString()\<close> have
  the same effect in every state, so they address the same entry of the registry, and
  any run is unchanged when the arguments of its calls are replaced by their strings.
  When the attempt started by the first call with \<open>v\<close> has succeeded with connection
  \<open>h\<close>, a call with the string returns \<open>h\<close> and starts no attempt and makes no connection.
\<close>

theorem key_coercion:
  assumes "toString v = Inr k"
  shows "step e s (Call v) = step e s (Call (IdString k))
    \<and> run e s (map coerce evs) = run e s evs
    \<and> (\<forall>evs0 evs1 s0 s' h. s0 = run e init evs0 \<longrightarrow>
          lookupEntry (connections s0) k = None \<longrightarrow>
          s' = run e s0 (Call v # evs1) \<longrightarrow>
          stageOf s' (length (tasks s0)) = Some (Settled (Inr h)) \<longrightarrow>
          callResult (step e s' (Call (IdString k))) (length (calls s')) = Some (Inr (VConn h)) \<and>
          tasks (step e s' (Call (IdString k))) = tasks s' \<and>
          conns (step e s' (Call (IdString k))) = conns s' \<and>
          connections (step e s' (Call (IdString k))) = connections s')"
proof -
  have after: "callResult (step e s' (Call (IdString k))) (length (calls s')) = Some (Inr (VConn h)) \<and>
      tasks (step e s' (Call (IdString k))) = tasks s' \<and>
      conns (step e s' (Call (IdString k))) = conns s' \<and>
      connections (step e s' (Call (IdString k))) = connections s'"
    if h: "s0 = run e init evs0" "lookupEntry (connections s0) k = None"
      "s' = run e s0 (Call v # evs1)"
      "stageOf s' (length (tasks s0)) = Some (Settled (Inr h))"
    for evs0 evs1 s0 s' h
  proof -
    define s1 where "s1 = step e s0 (Call v)"
    have s1: "s1 = recordCall (startAttempt s0 k) (Inr k) (Inr (VPromise (length (tasks s0))))"
      unfolding s1_def using assms h(2) by (simp add: getTenantConnection_miss)
    have inv1: "reg_inv s1"
      unfolding s1_def h(1) by (rule reg_inv_step [OF reg_inv_reachable])
    have "flight_window s0 k (length (tasks s0)) s1"
      unfolding s1 by (rule flight_window_start [OF h(2)])
    from flight_window_run [OF inv1 this, of e evs1] h(3)
    have "flight_window s0 k (length (tasks s0)) s'"
      by (simp add: s1_def)
    with h(4) have ready: "connections s' k = Some (VConn h)"
      by (auto simp: flight_window_def)
    have "step e s' (Call (IdString k)) = recordCall s' (Inr k) (Inr (VConn h))"
      using lookupEntry_own [of "connections s'" k, OF ready] by (simp add: getTenantConnection_hit)
    then show ?thesis
      by (simp add: callResult_def)
  qed
  show ?thesis
    apply (intro conjI)
      apply (rule call_coerced [OF assms])
     apply (rule run_coerce)
    apply (intro allI impI, rule after, assumption+)
    done
qed

theorem key_coercion_witness:
  "step demoEnv init (Call (ObjectId ''u123'')) = step demoEnv init (Call (IdString ''u123''))
   \<and> callResult
       (run demoEnv init
          [Call (ObjectId ''u123''), LookupResolved 0 None, ConnectResolved 0,
           CollectionResolved 0, Call (IdString ''u123'')]) 1 = Some (Inr (VConn 0))
   \<and> length (conns
       (run demoEnv init
          [Call (ObjectId ''u123''), LookupResolved 0 None, ConnectResolved 0,
           CollectionResolved 0, Call (IdString ''u123'')])) = 1"
proof -
  define evs1 where "evs1 = [LookupResolved 0 None, ConnectResolved 0, CollectionResolved 0]"
  define s' where "s' = run demoEnv init (Call (ObjectId ''u123'') # evs1)"
  have a: "toString (ObjectId ''u123'') = Inr ''u123''" by simp
  have b: "init = run demoEnv init []" by simp
  have c: "lookupEntry (connections init) ''u123'' = None"
    by (simp add: model_defs)
  have d: "stageOf s' (length (tasks init)) = Some (Settled (Inr 0))"
    and facts: "length (calls s') = 1" "length (conns s') = 1"
    by (simp_all add: s'_def evs1_def demoEnv_def model_defs)
  have eq: "run demoEnv init
      [Call (ObjectId ''u123''), LookupResolved 0 None, ConnectResolved 0,
       CollectionResolved 0, Call (IdString ''u123'')] = step demoEnv s' (Call (IdString ''u123''))"
    unfolding s'_def evs1_def by (simp add: run_def)
  note main = key_coercion [OF a, of demoEnv init "[]"]
  note same = main [THEN conjunct1]
  note after = main [THEN conjunct2, THEN conjunct2, rule_format, OF b c s'_def d]
  from after facts
  have "callResult (step demoEnv s' (Call (IdString ''u123''))) 1 = Some (Inr (VConn 0))"
    and "length (conns (step demoEnv s' (Call (IdString ''u123'')))) = 1"
    by (simp_all del: step.simps)
  with same show ?thesis
    unfolding eq by (intro conjI)
qed

section \<open>What the registry is keyed by\<close>

text \<open>
  Claim C2, as stated, fails. User \<^verbatim>\<open>a1\<close> stores the explicit name \<^verbatim>\<open>u2\<close> and user
  \<^verbatim>\<open>u2\<close> relies on the derived name; both resolve to \<^verbatim>\<open>AI_FARM_user_u2\<close>. After
  both calls have completed the registry holds two entries, under the two user ids and
  none under the database name, two connections to the same database have been made,
  and the two callers have received different connections.
\<close>

theorem cache_key_counterexample:
  "resolveDbName (Some \<lparr>tenantDbName = Some ''u2''\<rparr>) ''a1'' = ''AI_FARM_user_u2''
   \<and> resolveDbName None ''u2'' = ''AI_FARM_user_u2''
   \<and> dom (connections (run demoEnv init sharedNameRun)) = {''a1'', ''u2''}
   \<and> connections (run demoEnv init sharedNameRun) ''AI_FARM_user_u2'' = None
   \<and> map conn_db (conns (run demoEnv init sharedNameRun))
       = [''AI_FARM_user_u2'', ''AI_FARM_user_u2'']
   \<and> callResult (run demoEnv init sharedNameRun) 0 = Some (Inr (VConn 0))
   \<and> callResult (run demoEnv init sharedNameRun) 1 = Some (Inr (VConn 1))"
  by (auto simp: sharedNameRun_def demoEnv_def model_defs split: if_splits)

text \<open>
  Claim C2, amended. The key under which an attempt and its connection are stored is
  the id string of the call: a call that finds no entry writes the entry of its id
  string and no other, every key of the registry is the id string of a call that was
  made, and two ready entries under different id strings hold different connections,
  each made by a connector call of an attempt for its own id string; the database
  names of the two connections play no part and may be equal.
\<close>

theorem cache_key_is_user_id:
  assumes "s = run e init evs"
  shows "(\<forall>v k. toString v = Inr k \<longrightarrow> lookupEntry (connections s) k = None \<longrightarrow>
            connections (step e s (Call v))
              = (connections s)(k \<mapsto> VPromise (length (tasks s))))
    \<and> (\<forall>k x. connections s k = Some x \<longrightarrow>
          (\<exists>c < length (calls s). call_key (calls s ! c) = Inr k))
    \<and> (\<forall>k1 k2 h1 h2. connections s k1 = Some (VConn h1) \<longrightarrow>
          connections s k2 = Some (VConn h2) \<longrightarrow> k1 \<noteq> k2 \<longrightarrow>
          h1 \<noteq> h2 \<and> h1 < length (conns s) \<and> h2 < length (conns s) \<and>
          conn_key (conns s ! h1) = k1 \<and> conn_key (conns s ! h2) = k2)"
proof -
  have inv: "reg_inv s"
    unfolding assms by (rule reg_inv_reachable)
  then have hnd: "inv_handle s" and keys: "inv_keys s"
    by (simp_all add: reg_inv_def)
  have written: "connections (step e s (Call v))
      = (connections s)(k \<mapsto> VPromise (length (tasks s)))"
    if "toString v = Inr k" "lookupEntry (connections s) k = None" for v k
    using that by (simp add: getTenantConnection_miss)
  have called: "\<exists>c < length (calls s). call_key (calls s ! c) = Inr k"
    if "connections s k = Some x" for k x
    using keys that by (simp add: inv_keys_def)
  have apart: "h1 \<noteq> h2 \<and> h1 < length (conns s) \<and> h2 < length (conns s) \<and>
      conn_key (conns s ! h1) = k1 \<and> conn_key (conns s ! h2) = k2"
    if "connections s k1 = Some (VConn h1)" "connections s k2 = Some (VConn h2)" "k1 \<noteq> k2"
    for k1 k2 h1 h2
    using handle_of_entry [OF hnd that(1)] handle_of_entry [OF hnd that(2)] that(3) by auto
  show ?thesis
    apply (intro conjI)
      apply (intro allI impI, erule (1) written)
     apply (intro allI impI, erule called)
    apply (intro allI impI, erule (2) apart)
    done
qed

theorem cache_key_is_user_id_witness:
  "connections (run demoEnv init (sharedNameRun @ [Call (IdString ''b7'')])) ''b7''
     = Some (VPromise 2)
   \<and> (\<exists>c < length (calls (run demoEnv init sharedNameRun)).
         call_key (calls (run demoEnv init sharedNameRun) ! c) = Inr ''a1'')
   \<and> conn_key (conns (run demoEnv init sharedNameRun) ! 0) = ''a1''
   \<and> conn_key (conns (run demoEnv init sharedNameRun) ! 1) = ''u2''
   \<and> conn_db (conns (run demoEnv init sharedNameRun) ! 0)
       = conn_db (conns (run demoEnv init sharedNameRun) ! 1)"
proof -
  define s where "s = run demoEnv init sharedNameRun"
  have a: "connections s ''a1'' = Some (VConn 0)" and b: "connections s ''u2'' = Some (VConn 1)"
    and c: "''a1'' \<noteq> ''u2''"
    and d: "conn_db (conns s ! 0) = conn_db (conns s ! 1)"
    and f: "toString (IdString ''b7'') = Inr ''b7''"
      "lookupEntry (connections s) ''b7'' = None"
    and n: "length (tasks s) = 2"
    by (simp_all add: s_def sharedNameRun_def demoEnv_def model_defs)
  have eq: "run demoEnv init (sharedNameRun @ [Call (IdString ''b7'')])
      = step demoEnv s (Call (IdString ''b7''))"
    by (simp only: run_snoc s_def)
  note main = cache_key_is_user_id [OF s_def]
  note written = main [THEN conjunct1, rule_format, OF f]
  note called = main [THEN conjunct2, THEN conjunct1, rule_format, OF a]
  note apart = main [THEN conjunct2, THEN conjunct2, rule_format, OF a b c]
  have w: "connections (step demoEnv s (Call (IdString ''b7''))) ''b7'' = Some (VPromise 2)"
    unfolding written by (simp add: n)
  show ?thesis
    unfolding eq s_def [symmetric]
    by (intro conjI w called apart [THEN conjunct2, THEN conjunct2, THEN conjunct2, THEN conjunct1]
        apart [THEN conjunct2, THEN conjunct2, THEN conjunct2, THEN conjunct2] d)
qed

section \<open>Errors while the schemas are registered\<close>

lemma collection_rejection_ignored:
  "step e s (CollectionRejected t err) = step e s (CollectionResolved t)"
  by simp

lemma model_error_fails:
  assumes "stageOf s t = Some (AwaitConnect h)" and "schemaNames e = m # ms"
    and "modelThrows e m = Some err"
  shows "step e s (ConnectResolved t) = failTask s t err"
  using assms by simp

text \<open>
  Claim C5 at its failing input: one schema, and \<^verbatim>\<open>createCollection\<close> is rejected with
  an error other than the already-exists condition. The attempt nevertheless succeeds:
  the connection is stored in the registry and the caller receives it.
\<close>

theorem collection_error_swallowed:
  "stageOf (run demoEnv init swallowRun) 0 = Some (Settled (Inr 0))
   \<and> connections (run demoEnv init swallowRun) ''u1'' = Some (VConn 0)
   \<and> callResult (run demoEnv init swallowRun) 0 = Some (Inr (VConn 0))
   \<and> conn_collections (conns (run demoEnv init swallowRun) ! 0) = [''cows'']"
  by (simp add: swallowRun_def demoEnv_def model_defs)

end
